theory Spec2Isabelle
  imports Complex_Main
begin

section \<open>Python values and exceptions\<close>

text \<open>
  Python floats and the entries of numpy float arrays are modelled as real numbers;
  rounding is not modelled, except for the amplitude converters of the Gaussian
  profile, which are also given in double precision. An exception is a value of type \<open>error\<close>, and a
  computation that may raise returns \<open>error + 'a\<close> with \<open>Inl\<close> for the exception.
\<close>

datatype error =
    ValueError string
  | IndexError
  | KeyError string
  | TypeError
  | ZeroDivisionError

section \<open>LensModel/Profiles/gaussian.py\<close>

subsection \<open>Arithmetic with recorded divisors\<close>

text \<open>
  Every \<open>/\<close> of the source is \<open>pydiv\<close>: it fails on a zero divisor and otherwise
  returns the quotient together with the divisor it used. A computation of type
  \<open>'a dz\<close> therefore carries the list of all divisors it has divided by, in
  evaluation order.
\<close>

type_synonym 'a dz = "error + (real list \<times> 'a)"

definition ret :: "'a \<Rightarrow> 'a dz" where
  "ret a = Inr ([], a)"

definition pydiv :: "real \<Rightarrow> real \<Rightarrow> real dz" where
  "pydiv a b = (if b = 0 then Inl ZeroDivisionError else Inr ([b], a / b))"

definition bind_dz :: "'a dz \<Rightarrow> ('a \<Rightarrow> 'b dz) \<Rightarrow> 'b dz" where
  "bind_dz m f =
     (case m of
        Inl e \<Rightarrow> Inl e
      | Inr (l, a) \<Rightarrow>
          (case f a of
             Inl e \<Rightarrow> Inl e
           | Inr (l', b) \<Rightarrow> Inr (l @ l', b)))"



definition result :: "'a dz \<Rightarrow> 'a option" where
  "result m = (case m of Inl e \<Rightarrow> None | Inr (l, a) \<Rightarrow> Some a)"

text \<open>numpy broadcasting of a binary operation over two one-dimensional arrays.\<close>

definition broadcast2 :: "('a \<Rightarrow> 'b \<Rightarrow> 'c) \<Rightarrow> 'a list \<Rightarrow> 'b list \<Rightarrow> error + 'c list" where
  "broadcast2 f xs ys =
     (if length xs = length ys then Inr (map2 f xs ys)
      else if length xs = 1 then Inr (map (f (hd xs)) ys)
      else if length ys = 1 then Inr (map (\<lambda>x. f x (hd ys)) xs)
      else Inl (ValueError ''operands could not be broadcast together''))"

subsection \<open>The profile\<close>


definition amp2d_to_3d :: "real \<Rightarrow> real \<Rightarrow> real \<Rightarrow> real dz" where
  "amp2d_to_3d amp sigma_x sigma_y = pydiv amp (sqrt pi * sqrt (sigma_x * sigma_y * 2))"

text \<open>
  \<open>_num_integral(r, c)\<close>. \<open>scipy.integrate.quad\<close> is a parameter \<open>quad f a b\<close>, the
  value it returns for the integral of \<open>f\<close> from \<open>a\<close> to \<open>b\<close>.
\<close>

definition num_integral :: "((real \<Rightarrow> real) \<Rightarrow> real \<Rightarrow> real \<Rightarrow> real) \<Rightarrow> real \<Rightarrow> real \<Rightarrow> real" where
  "num_integral quad r c =
     (if r = 0 then 0 else quad (\<lambda>x. (1 - exp (- c * x\<^sup>2)) / x) 0 r)"

text \<open>
  \<open>Gaussian.function\<close>: the branch for scalar positions and the branch for position
  arrays of the \<open>isinstance\<close> test.
\<close>

definition gaussian_function ::
  "((real \<Rightarrow> real) \<Rightarrow> real \<Rightarrow> real \<Rightarrow> real) \<Rightarrow> real \<Rightarrow> real \<Rightarrow> real \<Rightarrow> real \<Rightarrow> real \<Rightarrow> real \<Rightarrow> real dz" where
  "gaussian_function quad x y amp sigma center_x center_y =
     (let x' = x - center_x;
          y' = y - center_y;
          r = sqrt (x'\<^sup>2 + y'\<^sup>2);
          sigma_x = sigma; sigma_y = sigma
      in bind_dz (pydiv 1 (2 * sigma_x * sigma_y)) (\<lambda>c.
         let num_int = num_integral quad r c
         in bind_dz (amp2d_to_3d amp sigma_x sigma_y) (\<lambda>amp_density.
            bind_dz (pydiv amp_density (sqrt pi * sqrt (sigma_x * sigma_y * 2))) (\<lambda>amp2d.
            bind_dz (pydiv (2 * 1) (2 * c)) (\<lambda>k.
            ret (num_int * (amp2d * k)))))))"

definition gaussian_function_array ::
  "((real \<Rightarrow> real) \<Rightarrow> real \<Rightarrow> real \<Rightarrow> real) \<Rightarrow> real list \<Rightarrow> real list \<Rightarrow> real \<Rightarrow> real \<Rightarrow> real \<Rightarrow> real \<Rightarrow> real list dz" where
  "gaussian_function_array quad x y amp sigma center_x center_y =
     (let x' = map (\<lambda>a. a - center_x) x;
          y' = map (\<lambda>a. a - center_y) y;
          sigma_x = sigma; sigma_y = sigma
      in case broadcast2 (\<lambda>a b. sqrt (a\<^sup>2 + b\<^sup>2)) x' y' of
           Inl e \<Rightarrow> Inl e
         | Inr r \<Rightarrow>
             bind_dz (pydiv 1 (2 * sigma_x * sigma_y)) (\<lambda>c.
             if length r < length x' then Inl IndexError
             else
               let num_int = map (\<lambda>i. num_integral quad (r ! i) c) [0 ..< length x']
               in bind_dz (amp2d_to_3d amp sigma_x sigma_y) (\<lambda>amp_density.
                  bind_dz (pydiv amp_density (sqrt pi * sqrt (sigma_x * sigma_y * 2))) (\<lambda>amp2d.
                  bind_dz (pydiv (2 * 1) (2 * c)) (\<lambda>k.
                  ret (map (\<lambda>v. v * (amp2d * k)) num_int))))))"









definition expand :: "nat \<Rightarrow> 'a list \<Rightarrow> 'a list" where
  "expand n xs = (if length xs = n then xs else replicate n (hd xs))"






subsection \<open>The amplitude converters in double precision\<close>

text \<open>
  The round trip of the two amplitude converters is a statement about rounding, so for
  it the converters are modelled in IEEE 754 double precision. A double is the real
  number it denotes. \<open>rne\<close> rounds a real to the nearest integer, ties to the even one;
  \<open>ulp_of x\<close> is the spacing of the doubles in the binade of \<open>x\<close> (53 significant bits);
  \<open>rnd x\<close> is the double nearest to \<open>x\<close> when the exponent range is not exceeded.
\<close>

definition rne :: "real \<Rightarrow> int" where
  "rne y =
     (let f = \<lfloor>y\<rfloor>; d = y - of_int f
      in if d < 1 / 2 then f else if 1 / 2 < d then f + 1 else if even f then f else f + 1)"

definition ulp_of :: "real \<Rightarrow> real" where
  "ulp_of x = 2 powr (of_int \<lfloor>log 2 \<bar>x\<bar>\<rfloor> - 52)"

definition rnd :: "real \<Rightarrow> real" where
  "rnd x = (if x = 0 then 0 else of_int (rne (x / ulp_of x)) * ulp_of x)"

text \<open>
  \<open>fl64 x\<close> is the result of an operation whose exact value is \<open>x\<close>: \<open>Some\<close> of the
  rounded value when \<open>x\<close> is zero or lies in the range of the normal doubles, and
  \<open>None\<close> otherwise (overflow to infinity, subnormal results). Division by zero and the
  square root of a negative number, which numpy answers with \<open>inf\<close> or \<open>nan\<close>, are
  \<open>None\<close> as well. Multiplication, division and square root are correctly rounded.
\<close>

definition min_normal :: real where
  "min_normal = 2 powr (- 1022)"

definition max_double :: real where
  "max_double = (2 - 2 powr (- 52)) * 2 powr 1023"

definition fl64 :: "real \<Rightarrow> real option" where
  "fl64 x =
     (if x = 0 then Some 0
      else if min_normal \<le> \<bar>x\<bar> \<and> \<bar>rnd x\<bar> \<le> max_double then Some (rnd x)
      else None)"

definition fmul :: "real \<Rightarrow> real \<Rightarrow> real option" where
  "fmul a b = fl64 (a * b)"

definition fdiv :: "real \<Rightarrow> real \<Rightarrow> real option" where
  "fdiv a b = (if b = 0 then None else fl64 (a / b))"

definition fsqrt :: "real \<Rightarrow> real option" where
  "fsqrt a = (if a < 0 then None else fl64 (sqrt a))"

text \<open>\<open>np.pi\<close> is the double \<open>3.141592653589793 = 884279719003555 / 2^48\<close>.\<close>

definition np_pi :: real where
  "np_pi = 884279719003555 / 281474976710656"

text \<open>
  \<open>_amp3d_to_2d\<close>: \<open>amp * np.sqrt(np.pi) * np.sqrt(sigma_x * sigma_y * 2)\<close>, and
  \<open>_amp2d_to_3d\<close>: \<open>amp / (np.sqrt(np.pi) * np.sqrt(sigma_x * sigma_y * 2))\<close>, each
  operation rounded, in the order in which Python evaluates them.
  \<open>amp2d_to_3d_fp\<close> is \<open>_amp2d_to_3d\<close> in double precision; \<open>amp2d_to_3d\<close> above is
  the same expression over the reals, with its divisor recorded.
\<close>

definition amp3d_to_2d :: "real \<Rightarrow> real \<Rightarrow> real \<Rightarrow> real option" where
  "amp3d_to_2d amp sigma_x sigma_y =
     Option.bind (fsqrt np_pi) (\<lambda>p.
     Option.bind (fmul amp p) (\<lambda>t.
     Option.bind (fmul sigma_x sigma_y) (\<lambda>ss.
     Option.bind (fmul ss 2) (\<lambda>s2.
     Option.bind (fsqrt s2) (\<lambda>q.
     fmul t q)))))"

definition amp2d_to_3d_fp :: "real \<Rightarrow> real \<Rightarrow> real \<Rightarrow> real option" where
  "amp2d_to_3d_fp amp sigma_x sigma_y =
     Option.bind (fsqrt np_pi) (\<lambda>p.
     Option.bind (fmul sigma_x sigma_y) (\<lambda>ss.
     Option.bind (fmul ss 2) (\<lambda>s2.
     Option.bind (fsqrt s2) (\<lambda>q.
     Option.bind (fmul p q) (\<lambda>d.
     fdiv amp d)))))"

section \<open>PointSource/point_source.py\<close>

subsection \<open>Values, sequencing of raising computations, indexing\<close>

text \<open>
  A value stored in a keyword-argument dictionary is a float or a numpy array of
  floats. A dictionary is a finite map from key strings to values.
\<close>

datatype pyval = Num real | Arr "real list"

type_synonym kwargs = "string \<rightharpoonup> pyval"

definition bind_err :: "error + 'a \<Rightarrow> ('a \<Rightarrow> error + 'b) \<Rightarrow> error + 'b" where
  "bind_err m f = (case m of Inl e \<Rightarrow> Inl e | Inr a \<Rightarrow> f a)"

text \<open>\<open>xs[i]\<close> for a non-negative index: IndexError out of range.\<close>

definition nth_py :: "'a list \<Rightarrow> nat \<Rightarrow> error + 'a" where
  "nth_py xs i = (if i < length xs then Inr (xs ! i) else Inl IndexError)"

text \<open>\<open>kwargs[key]\<close>: KeyError for a missing key.\<close>

definition getitem :: "kwargs \<Rightarrow> string \<Rightarrow> error + pyval" where
  "getitem kw key = (case kw key of None \<Rightarrow> Inl (KeyError key) | Some v \<Rightarrow> Inr v)"

text \<open>Iterating over a value, or taking its \<open>len\<close>: a float is not iterable.\<close>

definition as_array :: "pyval \<Rightarrow> error + real list" where
  "as_array v = (case v of Arr xs \<Rightarrow> Inr xs | Num r \<Rightarrow> Inl TypeError)"

subsection \<open>\<open>_sort_position_by_original\<close>\<close>

text \<open>\<open>np.argmin\<close>: the index of the first occurrence of the minimum.\<close>

fun argmin_list :: "real list \<Rightarrow> nat" where
  "argmin_list [] = 0"
| "argmin_list [x] = 0"
| "argmin_list (x # y # ys) =
     (let j = argmin_list (y # ys) in if x \<le> (y # ys) ! j then 0 else Suc j)"

definition argmin :: "real list \<Rightarrow> error + nat" where
  "argmin xs =
     (if xs = [] then Inl (ValueError ''attempt to get argmin of an empty sequence'')
      else Inr (argmin_list xs))"

text \<open>\<open>np.delete(arr, index)\<close> for a non-negative index.\<close>

definition np_delete :: "'a list \<Rightarrow> nat \<Rightarrow> error + 'a list" where
  "np_delete xs i = (if i < length xs then Inr (take i xs @ drop (Suc i) xs) else Inl IndexError)"

text \<open>
  The loop \<open>for i in range(len(x_o))\<close>, over the list of the remaining values of \<open>i\<close>.
  Its state is the pair of shrinking arrays \<open>x_solved\<close>, \<open>y_solved\<close> and the pair of
  growing lists \<open>x_solved_new\<close>, \<open>y_solved_new\<close>.
\<close>

fun sort_loop ::
  "real list \<Rightarrow> real list \<Rightarrow> real list \<Rightarrow> real list \<Rightarrow> real list \<Rightarrow> real list \<Rightarrow> nat list
     \<Rightarrow> error + (real list \<times> real list \<times> real list \<times> real list)" where
  "sort_loop x_o y_o x_solved y_solved x_solved_new y_solved_new [] =
     Inr (x_solved_new, y_solved_new, x_solved, y_solved)"
| "sort_loop x_o y_o x_solved y_solved x_solved_new y_solved_new (i # rest) =
     bind_err (nth_py x_o i) (\<lambda>x.
     bind_err (nth_py y_o i) (\<lambda>y.
     bind_err (broadcast2 (+) (map (\<lambda>s. (x - s)\<^sup>2) x_solved) (map (\<lambda>s. (y - s)\<^sup>2) y_solved)) (\<lambda>r2_i.
     bind_err (argmin r2_i) (\<lambda>index.
     bind_err (nth_py x_solved index) (\<lambda>xs.
     bind_err (nth_py y_solved index) (\<lambda>ys.
     bind_err (np_delete x_solved index) (\<lambda>x_solved'.
     bind_err (np_delete y_solved index) (\<lambda>y_solved'.
     sort_loop x_o y_o x_solved' y_solved' (x_solved_new @ [xs]) (y_solved_new @ [ys]) rest))))))))"

definition sort_position_by_original ::
  "real list \<Rightarrow> real list \<Rightarrow> real list \<Rightarrow> real list \<Rightarrow> error + (real list \<times> real list)" where
  "sort_position_by_original x_o y_o x_solved y_solved =
     (if length x_o > length x_solved then Inr (x_o, y_o)
      else
        bind_err (sort_loop x_o y_o x_solved y_solved [] [] [0 ..< length x_o])
          (\<lambda>(x_solved_new, y_solved_new, x_solved', y_solved').
             Inr (x_solved_new @ x_solved', y_solved_new @ y_solved')))"

text \<open>
  The assignment the matcher is specified to compute, on indices into the solved
  arrays: for each original point in order, the pool index of the nearest remaining
  solved point (the first one among equally near ones) is chosen and removed from the
  pool; the indices left over follow in pool order. \<open>S k\<close> is the solved point of
  index \<open>k\<close>.
\<close>

definition sqdist :: "real \<times> real \<Rightarrow> real \<times> real \<Rightarrow> real" where
  "sqdist p q = (fst p - fst q)\<^sup>2 + (snd p - snd q)\<^sup>2"

fun greedy_indices :: "(real \<times> real) list \<Rightarrow> (nat \<Rightarrow> real \<times> real) \<Rightarrow> nat list \<Rightarrow> nat list" where
  "greedy_indices [] S pool = pool"
| "greedy_indices (p # ps) S pool =
     (let j = argmin_list (map (\<lambda>k. sqdist p (S k)) pool)
      in pool ! j # greedy_indices ps S (take j pool @ drop (Suc j) pool))"

text \<open>
  \<open>nearest_first S p pool k\<close>: \<open>k\<close> is in the pool, no pool index is nearer to \<open>p\<close>,
  and every smaller pool index is strictly farther.
\<close>

definition nearest_first :: "(nat \<Rightarrow> real \<times> real) \<Rightarrow> real \<times> real \<Rightarrow> nat set \<Rightarrow> nat \<Rightarrow> bool" where
  "nearest_first S p pool k =
     (k \<in> pool \<and> (\<forall>k'\<in>pool. sqdist p (S k) \<le> sqdist p (S k'))
        \<and> (\<forall>k'\<in>pool. k' < k \<longrightarrow> sqdist p (S k) < sqdist p (S k')))"

subsection \<open>The class \<open>PointSource\<close>: construction\<close>

text \<open>
  An object is referred to by a reference. The classes \<open>Unlensed\<close>, \<open>LensedPositions\<close>,
  \<open>SourcePositions\<close> and \<open>PointSourceCached\<close> are imported from modules that are not
  part of the sources. A wrapper is represented by the constructor calls that make
  it, with their arguments in the order of the call; what these calls do with the
  arguments is a parameter \<open>raises\<close> of the construction: \<open>raises m\<close> is the exception
  that making the wrapper \<open>m\<close> raises, and \<open>None\<close> when the calls return.
\<close>

type_synonym ref = nat

datatype ps_type =
    Unlensed
  | LensedPositions "ref option" bool bool "nat list list option" "nat list option" "real option"
  | SourcePositions "ref option" bool "real option"

datatype cached_model = PointSourceCached ps_type bool


text \<open>The attributes of a \<open>PointSource\<close> instance.\<close>

record point_source =
  index_lens_model_list :: "nat list list option"
  point_source_frame_list :: "nat list option list option"
  lens_model :: "ref option"
  point_source_type_list :: "string list"
  point_source_list :: "cached_model list"
  fixed_magnification_list :: "bool list"
  flux_from_point_source_list :: "bool list"
  redshift_list :: "real option list"
  kwargs_lens_eqn_solver :: "string \<rightharpoonup> real"
  magnification_limit :: "real option"
  save_cache :: bool

definition SUPPORTED_MODELS :: "string list" where
  "SUPPORTED_MODELS = [''UNLENSED'', ''LENSED_POSITION'', ''SOURCE_POSITION'']"






subsection \<open>The class \<open>PointSource\<close>: reading operations\<close>

text \<open>
  \<open>model.image_position(kwargs, kwargs_lens, magnification_limit=...,
  kwargs_lens_eqn_solver=..., additional_images=...)\<close> of a wrapper is a parameter
  \<open>mip\<close>: \<open>mip i model\<close> is what the call returns for the wrapper \<open>model\<close> at position \<open>i\<close>
  of \<open>self._point_source_list\<close> in its current cache state. \<open>'l\<close> is the type of
  \<open>kwargs_lens\<close>.
\<close>

type_synonym 'l model_image_position =
  "nat \<Rightarrow> cached_model \<Rightarrow> kwargs \<Rightarrow> 'l \<Rightarrow> real option \<Rightarrow> (string \<rightharpoonup> real) \<Rightarrow> bool
     \<Rightarrow> error + (real list \<times> real list)"

fun image_position_loop ::
  "point_source \<Rightarrow> 'l model_image_position \<Rightarrow> kwargs list \<Rightarrow> 'l \<Rightarrow> nat option \<Rightarrow> bool \<Rightarrow> bool
     \<Rightarrow> nat \<Rightarrow> cached_model list \<Rightarrow> error + (real list list \<times> real list list)" where
  "image_position_loop ps mip kwargs_ps kwargs_lens k original_position additional_images i [] =
     Inr ([], [])"
| "image_position_loop ps mip kwargs_ps kwargs_lens k original_position additional_images i
       (model # rest) =
     (if k = None \<or> k = Some i then
        bind_err (nth_py kwargs_ps i) (\<lambda>kwargs.
        bind_err (mip i model kwargs kwargs_lens (magnification_limit ps)
                    (kwargs_lens_eqn_solver ps) additional_images) (\<lambda>(x_image, y_image).
        bind_err
          (if original_position \<and> additional_images then
             bind_err (nth_py (point_source_type_list ps) i) (\<lambda>t.
             if t = ''LENSED_POSITION'' then
               bind_err (getitem kwargs ''ra_image'') (\<lambda>x_o.
               bind_err (getitem kwargs ''dec_image'') (\<lambda>y_o.
               bind_err (as_array x_o) (\<lambda>x_o.
               bind_err (as_array y_o) (\<lambda>y_o.
               sort_position_by_original x_o y_o x_image y_image))))
             else Inr (x_image, y_image))
           else Inr (x_image, y_image)) (\<lambda>(x_image, y_image).
        bind_err (image_position_loop ps mip kwargs_ps kwargs_lens k original_position
                    additional_images (Suc i) rest) (\<lambda>(x_image_list, y_image_list).
        Inr (x_image # x_image_list, y_image # y_image_list)))))
      else image_position_loop ps mip kwargs_ps kwargs_lens k original_position
             additional_images (Suc i) rest)"

definition image_position ::
  "point_source \<Rightarrow> 'l model_image_position \<Rightarrow> kwargs list \<Rightarrow> 'l \<Rightarrow> nat option \<Rightarrow> bool \<Rightarrow> bool
     \<Rightarrow> error + (real list list \<times> real list list)" where
  "image_position ps mip kwargs_ps kwargs_lens k original_position additional_images =
     image_position_loop ps mip kwargs_ps kwargs_lens k original_position additional_images 0
       (point_source_list ps)"

text \<open>\<open>num_basis\<close>: the loop over \<open>enumerate(self.point_source_type_list)\<close> with counter \<open>n\<close>.\<close>

fun num_basis_loop ::
  "point_source \<Rightarrow> real list list \<Rightarrow> nat \<Rightarrow> nat \<Rightarrow> string list \<Rightarrow> error + nat" where
  "num_basis_loop ps ra_pos_list n i [] = Inr n"
| "num_basis_loop ps ra_pos_list n i (model # rest) =
     bind_err (nth_py (flux_from_point_source_list ps) i) (\<lambda>flux.
     if flux then
       bind_err (nth_py (fixed_magnification_list ps) i) (\<lambda>fixed.
       if fixed then num_basis_loop ps ra_pos_list (n + 1) (Suc i) rest
       else
         bind_err (nth_py ra_pos_list i) (\<lambda>ra.
         num_basis_loop ps ra_pos_list (n + length ra) (Suc i) rest))
     else num_basis_loop ps ra_pos_list n (Suc i) rest)"

definition num_basis ::
  "point_source \<Rightarrow> 'l model_image_position \<Rightarrow> kwargs list \<Rightarrow> 'l \<Rightarrow> error + nat" where
  "num_basis ps mip kwargs_ps kwargs_lens =
     bind_err (image_position ps mip kwargs_ps kwargs_lens None False False)
       (\<lambda>(ra_pos_list, dec_pos_list).
          num_basis_loop ps ra_pos_list 0 0 (point_source_type_list ps))"

text \<open>
  \<open>linear_param_from_kwargs\<close>: the loop over \<open>enumerate(self._point_source_list)\<close> with
  the list \<open>param\<close> built so far.
\<close>

fun linear_param_loop ::
  "point_source \<Rightarrow> kwargs list \<Rightarrow> pyval list \<Rightarrow> nat \<Rightarrow> cached_model list \<Rightarrow> error + pyval list" where
  "linear_param_loop ps kwargs_list param k [] = Inr param"
| "linear_param_loop ps kwargs_list param k (model # rest) =
     bind_err (nth_py (flux_from_point_source_list ps) k) (\<lambda>flux.
     if flux then
       bind_err (nth_py kwargs_list k) (\<lambda>kwargs.
       bind_err (nth_py (fixed_magnification_list ps) k) (\<lambda>fixed.
       if fixed then
         bind_err (getitem kwargs ''source_amp'') (\<lambda>a.
         linear_param_loop ps kwargs_list (param @ [a]) (Suc k) rest)
       else
         bind_err (getitem kwargs ''point_amp'') (\<lambda>v.
         bind_err (as_array v) (\<lambda>as.
         linear_param_loop ps kwargs_list (param @ map Num as) (Suc k) rest))))
     else linear_param_loop ps kwargs_list param (Suc k) rest)"

definition linear_param_from_kwargs :: "point_source \<Rightarrow> kwargs list \<Rightarrow> error + pyval list" where
  "linear_param_from_kwargs ps kwargs_list =
     linear_param_loop ps kwargs_list [] 0 (point_source_list ps)"

text \<open>
  \<open>check_positive_flux\<close>. \<open>np.all(np.asarray(v) >= 0)\<close> is \<open>all_nonneg v\<close>, and
  \<open>fails_nonneg kwargs key\<close> is the test \<open>key in kwargs\<close> followed by
  \<open>not np.all(np.asarray(kwargs[key]) >= 0)\<close>; \<open>break\<close> leaves the loop with
  \<open>pos_bool = False\<close>.
\<close>

definition all_nonneg :: "pyval \<Rightarrow> bool" where
  "all_nonneg v = (case v of Num r \<Rightarrow> 0 \<le> r | Arr rs \<Rightarrow> list_all (\<lambda>a. 0 \<le> a) rs)"

definition fails_nonneg :: "kwargs \<Rightarrow> string \<Rightarrow> bool" where
  "fails_nonneg kwargs key =
     (case kwargs key of None \<Rightarrow> False | Some v \<Rightarrow> \<not> all_nonneg v)"

fun check_positive_flux :: "kwargs list \<Rightarrow> bool" where
  "check_positive_flux [] = True"
| "check_positive_flux (kwargs # rest) =
     (if fails_nonneg kwargs ''point_amp'' then False
      else if fails_nonneg kwargs ''source_amp'' then False
      else check_positive_flux rest)"

text \<open>A value with at least one negative element.\<close>

definition has_negative :: "pyval \<Rightarrow> bool" where
  "has_negative v = (case v of Num r \<Rightarrow> r < 0 | Arr rs \<Rightarrow> list_ex (\<lambda>a. a < 0) rs)"

text \<open>
  The lists of an instance have one entry per declared source (the documented shape
  of the constructor's list arguments).
\<close>

definition consistent :: "point_source \<Rightarrow> bool" where
  "consistent ps =
     (length (point_source_list ps) = length (point_source_type_list ps)
      \<and> length (fixed_magnification_list ps) = length (point_source_type_list ps)
      \<and> length (flux_from_point_source_list ps) = length (point_source_type_list ps))"

text \<open>The number of linear parameters of source \<open>i\<close>, given its image positions.\<close>

definition block_length :: "point_source \<Rightarrow> real list list \<Rightarrow> nat \<Rightarrow> nat" where
  "block_length ps ra_pos_list i =
     (if \<not> flux_from_point_source_list ps ! i then 0
      else if fixed_magnification_list ps ! i then 1
      else length (ra_pos_list ! i))"

subsection \<open>The class \<open>PointSource\<close>: operations that write\<close>

text \<open>
  \<open>update_linear\<close> assigns into the dictionaries of the list it is given and
  \<open>set_amplitudes\<close> into those of a deep copy, so the keyword-argument list is
  modelled in a store: a list object is a list of references to dictionary objects.
  A reference is the position of its object in the store, and a new object is
  appended. Floats and arrays are values: neither operation changes an array in place.
\<close>

record store =
  dict_heap :: "kwargs list"
  list_heap :: "ref list list"

definition kwargs_at :: "store \<Rightarrow> ref \<Rightarrow> kwargs" where
  "kwargs_at h r = dict_heap h ! r"

text \<open>The list of dictionaries a list reference stands for.\<close>

definition kwargs_list_at :: "store \<Rightarrow> ref \<Rightarrow> kwargs list" where
  "kwargs_list_at h kwargs_ps = map (kwargs_at h) (list_heap h ! kwargs_ps)"

text \<open>\<open>kwargs[key] = v\<close> for the dictionary object \<open>r\<close>.\<close>

definition setitem :: "store \<Rightarrow> ref \<Rightarrow> string \<Rightarrow> pyval \<Rightarrow> store" where
  "setitem h r key v = h\<lparr>dict_heap := (dict_heap h)[r := (dict_heap h ! r)(key \<mapsto> v)]\<rparr>"

text \<open>
  A list reference of the store whose entries are dictionary objects of the store,
  and one whose entries are different objects.
\<close>

definition valid_kwargs_ps :: "store \<Rightarrow> ref \<Rightarrow> bool" where
  "valid_kwargs_ps h kwargs_ps =
     (kwargs_ps < length (list_heap h)
      \<and> list_all (\<lambda>r. r < length (dict_heap h)) (list_heap h ! kwargs_ps))"

definition unshared_kwargs_ps :: "store \<Rightarrow> ref \<Rightarrow> bool" where
  "unshared_kwargs_ps h kwargs_ps = distinct (list_heap h ! kwargs_ps)"

text \<open>
  \<open>update_linear\<close>: the loop over \<open>enumerate(self._point_source_list)\<close>. Its state is
  the store and the index \<open>i\<close>; \<open>refs\<close> are the entries of \<open>kwargs_ps\<close>. The slice
  \<open>param[i : i + n_points]\<close> is \<open>take n_points (drop i param)\<close>. An exception ends the
  call; the assignments made before it are not part of the value returned here.
\<close>

fun update_linear_loop ::
  "point_source \<Rightarrow> real list \<Rightarrow> real list list \<Rightarrow> ref list \<Rightarrow> store \<Rightarrow> nat \<Rightarrow> nat
     \<Rightarrow> cached_model list \<Rightarrow> error + (store \<times> nat)" where
  "update_linear_loop ps param ra_pos_list refs h i k [] = Inr (h, i)"
| "update_linear_loop ps param ra_pos_list refs h i k (model # rest) =
     bind_err (nth_py (flux_from_point_source_list ps) k) (\<lambda>flux.
     if flux then
       bind_err (nth_py refs k) (\<lambda>kwargs.
       bind_err (nth_py (fixed_magnification_list ps) k) (\<lambda>fixed.
       if fixed then
         bind_err (nth_py param i) (\<lambda>v.
         update_linear_loop ps param ra_pos_list refs
           (setitem h kwargs ''source_amp'' (Num v)) (i + 1) (Suc k) rest)
       else
         bind_err (nth_py ra_pos_list k) (\<lambda>ra.
         let n_points = length ra
         in update_linear_loop ps param ra_pos_list refs
              (setitem h kwargs ''point_amp'' (Arr (take n_points (drop i param))))
              (i + n_points) (Suc k) rest)))
     else update_linear_loop ps param ra_pos_list refs h i (Suc k) rest)"

definition update_linear ::
  "point_source \<Rightarrow> 'l model_image_position \<Rightarrow> real list \<Rightarrow> nat \<Rightarrow> store \<Rightarrow> ref \<Rightarrow> 'l
     \<Rightarrow> error + (store \<times> ref \<times> nat)" where
  "update_linear ps mip param i h kwargs_ps kwargs_lens =
     bind_err (image_position ps mip (kwargs_list_at h kwargs_ps) kwargs_lens None False False)
       (\<lambda>(ra_pos_list, dec_pos_list).
     bind_err (update_linear_loop ps param ra_pos_list (list_heap h ! kwargs_ps) h i 0
                 (point_source_list ps)) (\<lambda>(h', i').
     Inr (h', kwargs_ps, i')))"

text \<open>The key \<open>update_linear\<close> assigns for source \<open>k\<close>.\<close>

definition written_key :: "point_source \<Rightarrow> nat \<Rightarrow> string" where
  "written_key ps k = (if fixed_magnification_list ps ! k then ''source_amp'' else ''point_amp'')"

text \<open>
  \<open>copy.deepcopy\<close> of a list of dictionaries: a new dictionary object for every
  dictionary object of the list (\<open>memo\<close> maps an object already copied to its copy, so
  an object that occurs twice is copied once), and a new list object.
\<close>

fun deepcopy_entries :: "store \<Rightarrow> (ref \<times> ref) list \<Rightarrow> ref list \<Rightarrow> store \<times> ref list" where
  "deepcopy_entries h memo [] = (h, [])"
| "deepcopy_entries h memo (r # rs) =
     (case map_of memo r of
        Some r' \<Rightarrow>
          (let (h', out) = deepcopy_entries h memo rs in (h', r' # out))
      | None \<Rightarrow>
          (let r' = length (dict_heap h);
               h1 = h\<lparr>dict_heap := dict_heap h @ [dict_heap h ! r]\<rparr>;
               (h', out) = deepcopy_entries h1 ((r, r') # memo) rs
           in (h', r' # out)))"

definition deepcopy :: "store \<Rightarrow> ref \<Rightarrow> store \<times> ref" where
  "deepcopy h kwargs_ps =
     (let (h', refs) = deepcopy_entries h [] (list_heap h ! kwargs_ps)
      in (h'\<lparr>list_heap := list_heap h' @ [refs]\<rparr>, length (list_heap h')))"

text \<open>
  \<open>set_amplitudes\<close>: the loop over \<open>enumerate(self.point_source_type_list)\<close>; \<open>refs\<close>
  are the entries of the copy \<open>kwargs_list\<close>.
\<close>

fun set_amplitudes_loop ::
  "point_source \<Rightarrow> pyval list \<Rightarrow> ref list \<Rightarrow> store \<Rightarrow> nat \<Rightarrow> string list \<Rightarrow> error + store" where
  "set_amplitudes_loop ps amp_list refs h i [] = Inr h"
| "set_amplitudes_loop ps amp_list refs h i (model # rest) =
     bind_err (nth_py (flux_from_point_source_list ps) i) (\<lambda>flux.
     if flux then
       bind_err (nth_py amp_list i) (\<lambda>amp.
       if model = ''UNLENSED'' then
         bind_err (nth_py refs i) (\<lambda>kwargs.
         set_amplitudes_loop ps amp_list refs (setitem h kwargs ''point_amp'' amp) (Suc i) rest)
       else if model \<in> set [''LENSED_POSITION'', ''SOURCE_POSITION''] then
         bind_err (nth_py (fixed_magnification_list ps) i) (\<lambda>fixed.
         if fixed then
           bind_err (nth_py refs i) (\<lambda>kwargs.
           set_amplitudes_loop ps amp_list refs (setitem h kwargs ''source_amp'' amp) (Suc i) rest)
         else
           bind_err (nth_py refs i) (\<lambda>kwargs.
           set_amplitudes_loop ps amp_list refs (setitem h kwargs ''point_amp'' amp) (Suc i) rest))
       else set_amplitudes_loop ps amp_list refs h (Suc i) rest)
     else set_amplitudes_loop ps amp_list refs h (Suc i) rest)"

definition set_amplitudes ::
  "point_source \<Rightarrow> pyval list \<Rightarrow> store \<Rightarrow> ref \<Rightarrow> error + (store \<times> ref)" where
  "set_amplitudes ps amp_list h kwargs_ps =
     (let (h1, kwargs_list) = deepcopy h kwargs_ps
      in bind_err (set_amplitudes_loop ps amp_list (list_heap h1 ! kwargs_list) h1 0
                     (point_source_type_list ps)) (\<lambda>h'.
         Inr (h', kwargs_list)))"

text \<open>
  The dictionary of source \<open>k\<close>, of type \<open>model\<close>, after the body of the loop of
  \<open>set_amplitudes\<close> for that source, given the dictionary \<open>d\<close> before it.
\<close>

definition assign_amplitude :: "point_source \<Rightarrow> pyval list \<Rightarrow> string \<Rightarrow> nat \<Rightarrow> kwargs \<Rightarrow> kwargs" where
  "assign_amplitude ps amp_list model k d =
     (if flux_from_point_source_list ps ! k then
        if model = ''UNLENSED'' then d(''point_amp'' \<mapsto> amp_list ! k)
        else if model \<in> set [''LENSED_POSITION'', ''SOURCE_POSITION''] then
          if fixed_magnification_list ps ! k then d(''source_amp'' \<mapsto> amp_list ! k)
          else d(''point_amp'' \<mapsto> amp_list ! k)
        else d
      else d)"

subsection \<open>An example instance\<close>

text \<open>
  An instance with an unlensed source of two images fitted per image and a lensed
  source of four images with fixed magnification, and the image positions of its
  two wrappers.
\<close>

definition example_ps :: point_source where
  "example_ps =
     \<lparr> index_lens_model_list = None,
       point_source_frame_list = Some [None, None],
       lens_model = None,
       point_source_type_list = [''UNLENSED'', ''LENSED_POSITION''],
       point_source_list =
         [PointSourceCached Unlensed False,
          PointSourceCached (LensedPositions None True False None None None) False],
       fixed_magnification_list = [False, True],
       flux_from_point_source_list = [True, True],
       redshift_list = [None, None],
       kwargs_lens_eqn_solver = Map.empty,
       magnification_limit = None,
       save_cache = False \<rparr>"

definition example_mip :: "unit model_image_position" where
  "example_mip i model kwargs kwargs_lens ml solver ai =
     (if i = 0 then Inr ([1, 2], [3, 4]) else Inr ([5, 6, 7, 8], [5, 6, 7, 8]))"

text \<open>A store with the keyword-argument list of the two sources of \<open>example_ps\<close>.\<close>

definition example_store :: store where
  "example_store =
     \<lparr> dict_heap = [[''ra_image'' \<mapsto> Arr [1, 2], ''point_amp'' \<mapsto> Arr [1, 1]],
                    [''ra_image'' \<mapsto> Arr [5, 6, 7, 8]]],
       list_heap = [[0, 1]] \<rparr>"

section \<open>Verification of the Gaussian profile\<close>



lemma result_ret: "result (ret a) = Some a"
  by (simp add: result_def ret_def)

lemma result_pydiv: "b \<noteq> 0 \<Longrightarrow> result (pydiv a b) = Some (a / b)"
  by (simp add: result_def pydiv_def)

lemma result_bind:
  "result (bind_dz m f) = (case result m of None \<Rightarrow> None | Some a \<Rightarrow> result (f a))"
  by (auto simp: result_def bind_dz_def split: sum.splits prod.splits)

















lemma length_expand [simp]: "length (expand n xs) = n"
  by (simp add: expand_def)






lemma map_upt_replicate: "(\<And>i. i < n \<Longrightarrow> f i = c) \<Longrightarrow> map f [0..<n] = replicate n c"
  by (rule nth_equalityI) auto

text \<open>
  Rounding to double precision: \<open>rnd\<close> has relative error at most \<open>2^-53\<close>, and a real
  within half a unit in the last place of a double rounds to that double.
\<close>

lemma rne_close: "\<bar>of_int (rne y) - y\<bar> \<le> 1 / 2"
  unfolding rne_def Let_def by (auto simp: abs_le_iff)

lemma rne_eq: "\<bar>y - of_int m\<bar> < 1 / 2 \<Longrightarrow> rne y = m"
proof -
  assume a: "\<bar>y - of_int m\<bar> < 1 / 2"
  show ?thesis
  proof (cases "of_int m \<le> y")
    case True
    with a have "\<lfloor>y\<rfloor> = m" by (intro floor_unique) (auto simp: abs_less_iff)
    with a True show ?thesis by (simp add: rne_def Let_def abs_less_iff)
  next
    case False
    with a have f: "\<lfloor>y\<rfloor> = m - 1" by (intro floor_unique) (auto simp: abs_less_iff)
    with a False show ?thesis by (auto simp: rne_def Let_def abs_less_iff)
  qed
qed

lemma ulp_of_pos: "0 < ulp_of x"
  by (simp add: ulp_of_def)

lemma ulp_of_le:
  assumes "x \<noteq> 0"
  shows "ulp_of x * 2 ^ 52 \<le> \<bar>x\<bar>"
proof -
  have p: "(2::real) ^ 52 = 2 powr 52" by simp
  have "ulp_of x * 2 ^ 52 = 2 powr (of_int \<lfloor>log 2 \<bar>x\<bar>\<rfloor> - 52) * 2 powr 52"
    unfolding p by (simp only: ulp_of_def)
  also have "\<dots> = 2 powr (of_int \<lfloor>log 2 \<bar>x\<bar>\<rfloor> - 52 + 52)"
    by (rule powr_add [symmetric])
  also have "\<dots> = 2 powr (of_int \<lfloor>log 2 \<bar>x\<bar>\<rfloor>)" by simp
  also have "\<dots> \<le> 2 powr (log 2 \<bar>x\<bar>)"
    by (intro powr_mono) auto
  also have "\<dots> = \<bar>x\<bar>" using assms by simp
  finally show ?thesis .
qed

lemma rnd_rel: "\<bar>rnd x - x\<bar> \<le> \<bar>x\<bar> / 2 ^ 53"
proof (cases "x = 0")
  case True
  then show ?thesis by (simp add: rnd_def)
next
  case False
  let ?U = "ulp_of x"
  have U: "0 < ?U" by (rule ulp_of_pos)
  have "rnd x - x = (of_int (rne (x / ?U)) - x / ?U) * ?U"
    using False U by (simp add: rnd_def field_simps)
  then have "\<bar>rnd x - x\<bar> = \<bar>of_int (rne (x / ?U)) - x / ?U\<bar> * ?U"
    using U by (simp add: abs_mult)
  also have "\<dots> \<le> 1 / 2 * ?U"
    using rne_close [of "x / ?U"] U by (intro mult_right_mono) auto
  also have "\<dots> = ?U * 2 ^ 52 / 2 ^ 53" by simp
  also have "\<dots> \<le> \<bar>x\<bar> / 2 ^ 53"
    using ulp_of_le [OF False] by (intro divide_right_mono) auto
  finally show ?thesis .
qed

lemma rnd_eqI:
  assumes "0 < x" and "U = 2 powr of_int k" and "U * 2 ^ 52 \<le> x" and "x < U * 2 ^ 53"
    and "\<bar>x / U - of_int m\<bar> < 1 / 2"
  shows "rnd x = of_int m * U"
proof -
  have p: "(2::real) ^ 52 = 2 powr 52" "(2::real) ^ 53 = 2 powr 53" by simp_all
  have lo: "2 powr of_int (k + 52) \<le> x"
    using assms(3) unfolding assms(2) p by (simp add: powr_add)
  have hi: "x < 2 powr (of_int (k + 52) + 1)"
    using assms(4) unfolding assms(2) p by (simp add: powr_add add.assoc)
  have "\<lfloor>log 2 x\<rfloor> = k + 52"
    using lo hi assms(1) by (intro floor_unique) (simp_all add: le_log_iff log_less_iff)
  then have "ulp_of x = U"
    using assms(1,2) by (simp add: ulp_of_def)
  with assms(1,5) show ?thesis
    by (simp add: rnd_def rne_eq)
qed

lemma rnd_sqrt_eqI:
  assumes "0 < z" and "U = 2 powr of_int k" and "(U * 2 ^ 52)\<^sup>2 \<le> z" and "z < (U * 2 ^ 53)\<^sup>2"
    and "0 < m" and "((of_int m - 1 / 2) * U)\<^sup>2 < z" and "z < ((of_int m + 1 / 2) * U)\<^sup>2"
  shows "rnd (sqrt z) = of_int m * U"
proof (rule rnd_eqI [OF _ assms(2)])
  have U: "0 < U" using assms(2) by simp
  show "0 < sqrt z" using assms(1) by simp
  show "U * 2 ^ 52 \<le> sqrt z"
    using assms(3) U by (intro real_le_rsqrt) simp
  show "sqrt z < U * 2 ^ 53"
    using assms(4) U by (intro real_less_lsqrt) simp_all
  have m: "0 \<le> (of_int m - 1 / 2) * U" using assms(5) U by simp
  have a: "(of_int m - 1 / 2) * U < sqrt z"
    using assms(6) by (intro real_less_rsqrt)
  have b: "sqrt z < (of_int m + 1 / 2) * U"
    using assms(7,5) U by (intro real_less_lsqrt) simp_all
  from a b U show "\<bar>sqrt z / U - of_int m\<bar> < 1 / 2"
    unfolding abs_less_iff by (simp add: field_simps)
qed

lemma min_normal_le: "min_normal \<le> 1"
  by (simp add: min_normal_def powr_minus_divide)

lemma max_double_ge: "1024 \<le> max_double"
  by (simp add: max_double_def powr_minus_divide)

lemma fl_eqI: "rnd x = y \<Longrightarrow> 1 \<le> \<bar>x\<bar> \<Longrightarrow> \<bar>y\<bar> \<le> 1024 \<Longrightarrow> fl64 x = Some y"
  using min_normal_le max_double_ge by (auto simp: fl64_def)

lemma fl_rel:
  assumes "fl64 x = Some y"
  obtains e where "y = x * (1 + e)" and "\<bar>e\<bar> \<le> 1 / 2 ^ 53"
proof (cases "x = 0")
  case True
  with assms have "y = x * (1 + 0)" by (simp add: fl64_def)
  then show ?thesis by (rule that) simp
next
  case False
  with assms have y: "y = rnd x" by (auto simp: fl64_def split: if_splits)
  let ?e = "(rnd x - x) / x"
  have "y = x * (1 + ?e)" using False y by (simp add: field_simps)
  moreover have "\<bar>?e\<bar> \<le> 1 / 2 ^ 53"
  proof -
    have "\<bar>?e\<bar> = \<bar>rnd x - x\<bar> / \<bar>x\<bar>" by (simp add: abs_divide)
    also have "\<dots> \<le> (\<bar>x\<bar> / 2 ^ 53) / \<bar>x\<bar>"
      by (intro divide_right_mono rnd_rel) simp
    also have "\<dots> = 1 / 2 ^ 53" using False by simp
    finally show ?thesis .
  qed
  ultimately show ?thesis by (rule that)
qed

text \<open>The operations of the two converters at \<open>a = 5\<close>, \<open>s = 1\<close>, in both orders.\<close>

lemma U52: "1 / 4503599627370496 = (2::real) powr of_int (- 52)"
  by (simp add: powr_minus_divide)

lemma U51: "1 / 2251799813685248 = (2::real) powr of_int (- 51)"
  by (simp add: powr_minus_divide)

lemma U50: "1 / 1125899906842624 = (2::real) powr of_int (- 50)"
  by (simp add: powr_minus_divide)

lemma sqrt_pi_double: "fsqrt np_pi = Some (3991211251234741 / 2251799813685248)"
proof -
  have "rnd (sqrt np_pi) = of_int 7982422502469482 * (1 / 4503599627370496)"
    by (rule rnd_sqrt_eqI [OF _ U52]) (simp_all add: np_pi_def power2_eq_square)
  moreover have "1 \<le> sqrt np_pi" by (simp add: np_pi_def)
  ultimately show ?thesis
    by (simp add: fsqrt_def np_pi_def fl_eqI)
qed

lemma sqrt_two_double: "fsqrt 2 = Some (6369051672525773 / 4503599627370496)"
proof -
  have "rnd (sqrt 2) = of_int 6369051672525773 * (1 / 4503599627370496)"
    by (rule rnd_sqrt_eqI [OF _ U52]) (simp_all add: power2_eq_square)
  moreover have "1 \<le> sqrt (2::real)" by simp
  ultimately show ?thesis
    by (simp add: fsqrt_def fl_eqI)
qed

lemma fmul_one_one: "fmul 1 1 = Some 1"
proof -
  have "rnd 1 = of_int 4503599627370496 * (1 / 4503599627370496)"
    by (rule rnd_eqI [OF _ U52]) simp_all
  then show ?thesis by (simp add: fmul_def fl_eqI)
qed

lemma fmul_one_two: "fmul 1 2 = Some 2"
proof -
  have "rnd 2 = of_int 4503599627370496 * (1 / 2251799813685248)"
    by (rule rnd_eqI [OF _ U51]) simp_all
  then show ?thesis by (simp add: fmul_def fl_eqI)
qed

lemma fmul_p_q:
  "fmul (3991211251234741 / 2251799813685248) (6369051672525773 / 4503599627370496)
     = Some (2822212540896131 / 1125899906842624)"
proof -
  have "rnd (3991211251234741 / 2251799813685248 * (6369051672525773 / 4503599627370496))
      = of_int 5644425081792262 * (1 / 2251799813685248)"
    by (rule rnd_eqI [OF _ U51]) simp_all
  then show ?thesis by (simp add: fmul_def fl_eqI)
qed

lemma fdiv_five_d:
  "fdiv 5 (2822212540896131 / 1125899906842624) = Some (2245845381697785 / 1125899906842624)"
proof -
  have "rnd (5 / (2822212540896131 / 1125899906842624))
      = of_int 8983381526791140 * (1 / 4503599627370496)"
    by (rule rnd_eqI [OF _ U52]) simp_all
  then show ?thesis by (simp add: fdiv_def fl_eqI)
qed

lemma fmul_v_p:
  "fmul (2245845381697785 / 1125899906842624) (3991211251234741 / 2251799813685248)
     = Some (3980657295328607 / 1125899906842624)"
proof -
  have "rnd (2245845381697785 / 1125899906842624 * (3991211251234741 / 2251799813685248))
      = of_int 7961314590657214 * (1 / 2251799813685248)"
    by (rule rnd_eqI [OF _ U51]) simp_all
  then show ?thesis by (simp add: fmul_def fl_eqI)
qed

lemma fmul_w_q:
  "fmul (3980657295328607 / 1125899906842624) (6369051672525773 / 4503599627370496)
     = Some (5629499534213119 / 1125899906842624)"
proof -
  have "rnd (3980657295328607 / 1125899906842624 * (6369051672525773 / 4503599627370496))
      = of_int 5629499534213119 * (1 / 1125899906842624)"
    by (rule rnd_eqI [OF _ U50]) simp_all
  then show ?thesis by (simp add: fmul_def fl_eqI)
qed

lemma U49: "1 / 562949953421312 = (2::real) powr of_int (- 49)"
  by (simp add: powr_minus_divide)

lemma fmul_five_p:
  "fmul 5 (3991211251234741 / 2251799813685248) = Some (2494507032021713 / 281474976710656)"
proof -
  have "rnd (5 * (3991211251234741 / 2251799813685248))
      = of_int 4989014064043426 * (1 / 562949953421312)"
    by (rule rnd_eqI [OF _ U49]) simp_all
  then show ?thesis by (simp add: fmul_def fl_eqI)
qed

lemma fmul_t_q:
  "fmul (2494507032021713 / 281474976710656) (6369051672525773 / 4503599627370496)
     = Some (7055531352240327 / 562949953421312)"
proof -
  have "rnd (2494507032021713 / 281474976710656 * (6369051672525773 / 4503599627370496))
      = of_int 7055531352240327 * (1 / 562949953421312)"
    by (rule rnd_eqI [OF _ U49]) simp_all
  then show ?thesis by (simp add: fmul_def fl_eqI)
qed

lemma fdiv_v_d:
  "fdiv (7055531352240327 / 562949953421312) (2822212540896131 / 1125899906842624) = Some 5"
proof -
  have "rnd (7055531352240327 / 562949953421312 / (2822212540896131 / 1125899906842624))
      = of_int 5629499534213120 * (1 / 1125899906842624)"
    by (rule rnd_eqI [OF _ U50]) simp_all
  then show ?thesis by (simp add: fdiv_def fl_eqI)
qed

lemma U48: "1 / 281474976710656 = (2::real) powr of_int (- 48)"
  by (simp add: powr_minus_divide)

lemma fmul_nine_p:
  "fmul 9 (3991211251234741 / 2251799813685248) = Some (8980225315278167 / 562949953421312)"
proof -
  have "rnd (9 * (3991211251234741 / 2251799813685248))
      = of_int 8980225315278167 * (1 / 562949953421312)"
    by (rule rnd_eqI [OF _ U49]) simp_all
  then show ?thesis by (simp add: fmul_def fl_eqI)
qed

lemma fmul_t9_q:
  "fmul (8980225315278167 / 562949953421312) (6369051672525773 / 4503599627370496)
     = Some (3174989108508147 / 140737488355328)"
proof -
  have "rnd (8980225315278167 / 562949953421312 * (6369051672525773 / 4503599627370496))
      = of_int 6349978217016294 * (1 / 281474976710656)"
    by (rule rnd_eqI [OF _ U48]) simp_all
  then show ?thesis by (simp add: fmul_def fl_eqI)
qed

lemma fdiv_v9_d:
  "fdiv (3174989108508147 / 140737488355328) (2822212540896131 / 1125899906842624)
     = Some (5066549580791807 / 562949953421312)"
proof -
  have "rnd (3174989108508147 / 140737488355328 / (2822212540896131 / 1125899906842624))
      = of_int 5066549580791807 * (1 / 562949953421312)"
    by (rule rnd_eqI [OF _ U49]) simp_all
  then show ?thesis by (simp add: fdiv_def fl_eqI)
qed

lemma amp3d_to_2d_nine: "amp3d_to_2d 9 1 1 = Some (3174989108508147 / 140737488355328)"
  by (simp add: amp3d_to_2d_def sqrt_pi_double sqrt_two_double
      fmul_one_one fmul_one_two fmul_nine_p fmul_t9_q)

lemma amp2d_to_3d_fp_nine_back:
  "amp2d_to_3d_fp (3174989108508147 / 140737488355328) 1 1
     = Some (5066549580791807 / 562949953421312)"
  by (simp add: amp2d_to_3d_fp_def sqrt_pi_double sqrt_two_double
      fmul_one_one fmul_one_two fmul_p_q fdiv_v9_d)

lemma amp2d_to_3d_fp_five: "amp2d_to_3d_fp 5 1 1 = Some (2245845381697785 / 1125899906842624)"
  by (simp add: amp2d_to_3d_fp_def sqrt_pi_double sqrt_two_double
      fmul_one_one fmul_one_two fmul_p_q fdiv_five_d)

lemma amp3d_to_2d_back:
  "amp3d_to_2d (2245845381697785 / 1125899906842624) 1 1 = Some (5629499534213119 / 1125899906842624)"
  by (simp add: amp3d_to_2d_def sqrt_pi_double sqrt_two_double
      fmul_one_one fmul_one_two fmul_v_p fmul_w_q)

lemma amp3d_to_2d_five: "amp3d_to_2d 5 1 1 = Some (7055531352240327 / 562949953421312)"
  by (simp add: amp3d_to_2d_def sqrt_pi_double sqrt_two_double
      fmul_one_one fmul_one_two fmul_five_p fmul_t_q)

lemma amp2d_to_3d_fp_back: "amp2d_to_3d_fp (7055531352240327 / 562949953421312) 1 1 = Some 5"
  by (simp add: amp2d_to_3d_fp_def sqrt_pi_double sqrt_two_double
      fmul_one_one fmul_one_two fmul_p_q fdiv_v_d)

text \<open>
  The error of a round trip: four roundings separate the result from \<open>a\<close>, the
  common factors \<open>sqrt(np.pi)\<close> and \<open>sqrt(2 s^2)\<close> as computed cancel.
\<close>

lemma four_roundings:
  fixes e1 e2 e3 e4 :: real
  assumes "\<bar>e1\<bar> \<le> 1 / 2 ^ 53" "\<bar>e2\<bar> \<le> 1 / 2 ^ 53" "\<bar>e3\<bar> \<le> 1 / 2 ^ 53" "\<bar>e4\<bar> \<le> 1 / 2 ^ 53"
  shows "\<bar>(1 + e2) * (1 + e3) * (1 + e4) / (1 + e1) - 1\<bar> \<le> 5 / 2 ^ 53"
proof -
  define u :: real where "u = 1 / 2 ^ 53"
  have u: "0 < u" "u < 1" by (simp_all add: u_def)
  have b: "1 - u \<le> 1 + e1" "1 + e1 \<le> 1 + u" "1 - u \<le> 1 + e2" "1 + e2 \<le> 1 + u"
    "1 - u \<le> 1 + e3" "1 + e3 \<le> 1 + u" "1 - u \<le> 1 + e4" "1 + e4 \<le> 1 + u"
    using assms unfolding u_def by (simp_all add: abs_le_iff)
  have lo2: "(1 - u) * (1 - u) \<le> (1 + e2) * (1 + e3)"
    using b u by (intro mult_mono) simp_all
  have lo3: "(1 - u) * (1 - u) * (1 - u) \<le> (1 + e2) * (1 + e3) * (1 + e4)"
    using lo2 b u by (intro mult_mono) simp_all
  have pos2: "0 \<le> (1 + e2) * (1 + e3)" using b u by (intro mult_nonneg_nonneg) simp_all
  have hi2: "(1 + e2) * (1 + e3) \<le> (1 + u) * (1 + u)"
    using b u by (intro mult_mono) simp_all
  have hi3: "(1 + e2) * (1 + e3) * (1 + e4) \<le> (1 + u) * (1 + u) * (1 + u)"
    using hi2 b u pos2 by (intro mult_mono) simp_all
  have pos3: "0 \<le> (1 + e2) * (1 + e3) * (1 + e4)"
    using pos2 b u by (intro mult_nonneg_nonneg) simp_all
  have d: "0 < 1 + e1" using b u by simp
  have up: "(1 + e2) * (1 + e3) * (1 + e4) / (1 + e1) \<le> (1 + u) * (1 + u) * (1 + u) / (1 - u)"
    using hi3 pos3 b u by (intro frac_le) simp_all
  have down: "(1 - u) * (1 - u) * (1 - u) / (1 + u) \<le> (1 + e2) * (1 + e3) * (1 + e4) / (1 + e1)"
    using lo3 b u d by (intro frac_le) simp_all
  define c :: real where "c = 5 / 2 ^ 53"
  define X where "X = (1 + e2) * (1 + e3) * (1 + e4) / (1 + e1)"
  have n1: "(1 + u) * (1 + u) * (1 + u) / (1 - u) \<le> 1 + c"
    by (simp add: u_def c_def)
  have n2: "1 - c \<le> (1 - u) * (1 - u) * (1 - u) / (1 + u)"
    by (simp add: u_def c_def)
  have "X \<le> 1 + c" using up n1 unfolding X_def by (rule order_trans)
  moreover have "1 - c \<le> X" using n2 down unfolding X_def by (rule order_trans)
  ultimately have "\<bar>X - 1\<bar> \<le> c" unfolding abs_le_iff by linarith
  then show ?thesis unfolding X_def c_def .
qed

lemma cancel_forward:
  fixes a :: real
  assumes "p * q \<noteq> 0" "D \<noteq> 0"
  shows "a / (p * q * D) * E2 * p * E3 * q * E4 = a * (E2 * E3 * E4 / D)"
  using assms by (simp add: field_simps)

lemma cancel_backward:
  fixes a :: real
  assumes "p * q \<noteq> 0" "D \<noteq> 0"
  shows "a * p * E2 * q * E3 / (p * q * D) * E4 = a * (E2 * E3 * E4 / D)"
  using assms by (simp add: field_simps)

lemma bind_eq_Some_E:
  assumes "Option.bind m f = Some y"
  obtains x where "m = Some x" "f x = Some y"
  using assms by (cases m) auto

lemma amp_roundtrip_forward:
  assumes A: "amp2d_to_3d_fp a s s = Some v" and B: "amp3d_to_2d v s s = Some w"
  shows "\<bar>w - a\<bar> \<le> 5 / 2 ^ 53 * \<bar>a\<bar>"
proof -
  from A obtain p ss s2 q d where p: "fsqrt np_pi = Some p" and ss: "fmul s s = Some ss"
    and s2: "fmul ss 2 = Some s2" and q: "fsqrt s2 = Some q" and d: "fmul p q = Some d"
    and v: "fdiv a d = Some v"
    unfolding amp2d_to_3d_fp_def by (elim bind_eq_Some_E) blast
  from B p ss s2 q obtain t where t: "fmul v p = Some t" and w: "fmul t q = Some w"
    unfolding amp3d_to_2d_def by (elim bind_eq_Some_E) auto
  from v have d0: "d \<noteq> 0" and v': "fl64 (a / d) = Some v"
    by (auto simp: fdiv_def split: if_splits)
  from d obtain e1 where e1: "d = p * q * (1 + e1)" "\<bar>e1\<bar> \<le> 1 / 2 ^ 53"
    unfolding fmul_def by (rule fl_rel)
  from v' obtain e2 where e2: "v = a / d * (1 + e2)" "\<bar>e2\<bar> \<le> 1 / 2 ^ 53" by (rule fl_rel)
  from t obtain e3 where e3: "t = v * p * (1 + e3)" "\<bar>e3\<bar> \<le> 1 / 2 ^ 53"
    unfolding fmul_def by (rule fl_rel)
  from w obtain e4 where e4: "w = t * q * (1 + e4)" "\<bar>e4\<bar> \<le> 1 / 2 ^ 53"
    unfolding fmul_def by (rule fl_rel)
  from d0 e1 have pq: "p * q \<noteq> 0" and one: "1 + e1 \<noteq> 0" by auto
  have "w = a / (p * q * (1 + e1)) * (1 + e2) * p * (1 + e3) * q * (1 + e4)"
    unfolding e4(1) e3(1) e2(1) e1(1) ..
  also have "\<dots> = a * ((1 + e2) * (1 + e3) * (1 + e4) / (1 + e1))"
    using pq one by (rule cancel_forward)
  finally have "w = a * ((1 + e2) * (1 + e3) * (1 + e4) / (1 + e1))" .
  then have "w - a = a * ((1 + e2) * (1 + e3) * (1 + e4) / (1 + e1) - 1)"
    by (simp add: algebra_simps)
  then have "\<bar>w - a\<bar> = \<bar>a\<bar> * \<bar>(1 + e2) * (1 + e3) * (1 + e4) / (1 + e1) - 1\<bar>"
    by (simp add: abs_mult)
  also have "\<dots> \<le> \<bar>a\<bar> * (5 / 2 ^ 53)"
    by (intro mult_left_mono four_roundings e1 e2 e3 e4) simp
  finally show ?thesis by (simp add: mult.commute)
qed

lemma amp_roundtrip_backward:
  assumes A: "amp3d_to_2d a s s = Some v'" and B: "amp2d_to_3d_fp v' s s = Some w'"
  shows "\<bar>w' - a\<bar> \<le> 5 / 2 ^ 53 * \<bar>a\<bar>"
proof -
  from A obtain p t ss s2 q where p: "fsqrt np_pi = Some p" and t: "fmul a p = Some t"
    and ss: "fmul s s = Some ss" and s2: "fmul ss 2 = Some s2" and q: "fsqrt s2 = Some q"
    and v: "fmul t q = Some v'"
    unfolding amp3d_to_2d_def by (elim bind_eq_Some_E) blast
  from B p ss s2 q obtain d where d: "fmul p q = Some d" and w: "fdiv v' d = Some w'"
    unfolding amp2d_to_3d_fp_def by (elim bind_eq_Some_E) auto
  from w have d0: "d \<noteq> 0" and w': "fl64 (v' / d) = Some w'"
    by (auto simp: fdiv_def split: if_splits)
  from d obtain e1 where e1: "d = p * q * (1 + e1)" "\<bar>e1\<bar> \<le> 1 / 2 ^ 53"
    unfolding fmul_def by (rule fl_rel)
  from t obtain e2 where e2: "t = a * p * (1 + e2)" "\<bar>e2\<bar> \<le> 1 / 2 ^ 53"
    unfolding fmul_def by (rule fl_rel)
  from v obtain e3 where e3: "v' = t * q * (1 + e3)" "\<bar>e3\<bar> \<le> 1 / 2 ^ 53"
    unfolding fmul_def by (rule fl_rel)
  from w' obtain e4 where e4: "w' = v' / d * (1 + e4)" "\<bar>e4\<bar> \<le> 1 / 2 ^ 53" by (rule fl_rel)
  from d0 e1 have pq: "p * q \<noteq> 0" and one: "1 + e1 \<noteq> 0" by auto
  have "w' = a * p * (1 + e2) * q * (1 + e3) / (p * q * (1 + e1)) * (1 + e4)"
    unfolding e4(1) e3(1) e2(1) e1(1) ..
  also have "\<dots> = a * ((1 + e2) * (1 + e3) * (1 + e4) / (1 + e1))"
    using pq one by (rule cancel_backward)
  finally have "w' = a * ((1 + e2) * (1 + e3) * (1 + e4) / (1 + e1))" .
  then have "w' - a = a * ((1 + e2) * (1 + e3) * (1 + e4) / (1 + e1) - 1)"
    by (simp add: algebra_simps)
  then have "\<bar>w' - a\<bar> = \<bar>a\<bar> * \<bar>(1 + e2) * (1 + e3) * (1 + e4) / (1 + e1) - 1\<bar>"
    by (simp add: abs_mult)
  also have "\<dots> \<le> \<bar>a\<bar> * (5 / 2 ^ 53)"
    by (intro mult_left_mono four_roundings e1 e2 e3 e4) simp
  finally show ?thesis by (simp add: mult.commute)
qed

text \<open>The error of \<open>_amp2d_to_3d\<close> against the exact quotient.\<close>

lemma sqrt_two_roundings:
  fixes e1 e2 :: real
  assumes "\<bar>e1\<bar> \<le> 1 / 2 ^ 53" "\<bar>e2\<bar> \<le> 1 / 2 ^ 53"
  shows "1 - 1 / 2 ^ 53 \<le> sqrt ((1 + e1) * (1 + e2))"
    and "sqrt ((1 + e1) * (1 + e2)) \<le> 1 + 1 / 2 ^ 53"
proof -
  define u :: real where "u = 1 / 2 ^ 53"
  have u: "0 < u" "u < 1" by (simp_all add: u_def)
  have b: "1 - u \<le> 1 + e1" "1 + e1 \<le> 1 + u" "1 - u \<le> 1 + e2" "1 + e2 \<le> 1 + u"
    using assms unfolding u_def by (simp_all add: abs_le_iff)
  have lo: "(1 - u)\<^sup>2 \<le> (1 + e1) * (1 + e2)"
    unfolding power2_eq_square using b u by (intro mult_mono) simp_all
  have hi: "(1 + e1) * (1 + e2) \<le> (1 + u)\<^sup>2"
    unfolding power2_eq_square using b u by (intro mult_mono) simp_all
  have "1 - u \<le> sqrt ((1 + e1) * (1 + e2))" using lo by (rule real_le_rsqrt)
  then show "1 - 1 / 2 ^ 53 \<le> sqrt ((1 + e1) * (1 + e2))" unfolding u_def .
  have "sqrt ((1 + e1) * (1 + e2)) \<le> 1 + u" using hi u by (intro real_le_lsqrt) simp_all
  then show "sqrt ((1 + e1) * (1 + e2)) \<le> 1 + 1 / 2 ^ 53" unfolding u_def .
qed

lemma five_roundings:
  fixes g e3 e4 e5 e6 :: real
  assumes "1 - 1 / 2 ^ 53 \<le> g" "g \<le> 1 + 1 / 2 ^ 53"
    and "\<bar>e3\<bar> \<le> 1 / 2 ^ 53" "\<bar>e4\<bar> \<le> 1 / 2 ^ 53" "\<bar>e5\<bar> \<le> 1 / 2 ^ 53" "\<bar>e6\<bar> \<le> 1 / 2 ^ 53"
  shows "\<bar>(1 + e6) / (g * (1 + e3) * (1 + e4) * (1 + e5)) - 1\<bar> \<le> 6 / 2 ^ 53"
proof -
  define u :: real where "u = 1 / 2 ^ 53"
  have u: "0 < u" "u < 1" by (simp_all add: u_def)
  have b: "1 - u \<le> g" "g \<le> 1 + u" "1 - u \<le> 1 + e3" "1 + e3 \<le> 1 + u"
    "1 - u \<le> 1 + e4" "1 + e4 \<le> 1 + u" "1 - u \<le> 1 + e5" "1 + e5 \<le> 1 + u"
    "1 - u \<le> 1 + e6" "1 + e6 \<le> 1 + u"
    using assms unfolding u_def by (simp_all add: abs_le_iff)
  have lo2: "(1 - u) * (1 - u) \<le> g * (1 + e3)"
    using b u by (intro mult_mono) simp_all
  have lo3: "(1 - u) * (1 - u) * (1 - u) \<le> g * (1 + e3) * (1 + e4)"
    using lo2 b u by (intro mult_mono) simp_all
  have lo4: "(1 - u) * (1 - u) * (1 - u) * (1 - u) \<le> g * (1 + e3) * (1 + e4) * (1 + e5)"
    using lo3 b u by (intro mult_mono) simp_all
  have g0: "0 \<le> g" using b u by simp
  have pos2: "0 \<le> g * (1 + e3)" using b u g0 by (intro mult_nonneg_nonneg) simp_all
  have pos3: "0 \<le> g * (1 + e3) * (1 + e4)" using pos2 b u by (intro mult_nonneg_nonneg) simp_all
  have hi2: "g * (1 + e3) \<le> (1 + u) * (1 + u)"
    using b u g0 by (intro mult_mono) simp_all
  have hi3: "g * (1 + e3) * (1 + e4) \<le> (1 + u) * (1 + u) * (1 + u)"
    using hi2 b u pos2 by (intro mult_mono) simp_all
  have hi4: "g * (1 + e3) * (1 + e4) * (1 + e5) \<le> (1 + u) * (1 + u) * (1 + u) * (1 + u)"
    using hi3 b u pos3 by (intro mult_mono) simp_all
  have low_pos: "0 < (1 - u) * (1 - u) * (1 - u) * (1 - u)" using u by simp
  have den: "0 < g * (1 + e3) * (1 + e4) * (1 + e5)" using low_pos lo4 by linarith
  have n0: "0 \<le> 1 + e6" using b u by simp
  define c :: real where "c = 6 / 2 ^ 53"
  define X where "X = (1 + e6) / (g * (1 + e3) * (1 + e4) * (1 + e5))"
  have up: "X \<le> (1 + u) / ((1 - u) * (1 - u) * (1 - u) * (1 - u))"
    unfolding X_def using b n0 low_pos lo4 by (intro frac_le) simp_all
  have down: "(1 - u) / ((1 + u) * (1 + u) * (1 + u) * (1 + u)) \<le> X"
    unfolding X_def using b u den hi4 by (intro frac_le) simp_all
  have n1: "(1 + u) / ((1 - u) * (1 - u) * (1 - u) * (1 - u)) \<le> 1 + c"
    by (simp add: u_def c_def)
  have n2: "1 - c \<le> (1 - u) / ((1 + u) * (1 + u) * (1 + u) * (1 + u))"
    by (simp add: u_def c_def)
  have "X \<le> 1 + c" using up n1 by (rule order_trans)
  moreover have "1 - c \<le> X" using n2 down by (rule order_trans)
  ultimately have "\<bar>X - 1\<bar> \<le> c" unfolding abs_le_iff by linarith
  then show ?thesis unfolding X_def c_def .
qed

lemma regroup_quotient:
  fixes a :: real
  shows "a / (P0 * E4 * (S0 * G * E3) * E5) * E6 = a / (P0 * S0) * (E6 / (G * E3 * E4 * E5))"
  by (simp add: divide_inverse inverse_mult_distrib ac_simps)

lemma amp2d_to_3d_fp_formula:
  assumes "amp2d_to_3d_fp a s s = Some v"
  shows "\<bar>v - a / (sqrt np_pi * sqrt (2 * s\<^sup>2))\<bar>
      \<le> 6 / 2 ^ 53 * \<bar>a / (sqrt np_pi * sqrt (2 * s\<^sup>2))\<bar>"
proof -
  from assms obtain p ss s2 q d where p: "fsqrt np_pi = Some p" and ss: "fmul s s = Some ss"
    and s2: "fmul ss 2 = Some s2" and q: "fsqrt s2 = Some q" and d: "fmul p q = Some d"
    and v: "fdiv a d = Some v"
    unfolding amp2d_to_3d_fp_def by (elim bind_eq_Some_E) blast
  from v have v': "fl64 (a / d) = Some v" by (auto simp: fdiv_def split: if_splits)
  from p have p': "fl64 (sqrt np_pi) = Some p" by (auto simp: fsqrt_def split: if_splits)
  from q have q': "fl64 (sqrt s2) = Some q" by (auto simp: fsqrt_def split: if_splits)
  from ss obtain e1 where e1: "ss = s * s * (1 + e1)" "\<bar>e1\<bar> \<le> 1 / 2 ^ 53"
    unfolding fmul_def by (rule fl_rel)
  from s2 obtain e2 where e2: "s2 = ss * 2 * (1 + e2)" "\<bar>e2\<bar> \<le> 1 / 2 ^ 53"
    unfolding fmul_def by (rule fl_rel)
  from q' obtain e3 where e3: "q = sqrt s2 * (1 + e3)" "\<bar>e3\<bar> \<le> 1 / 2 ^ 53" by (rule fl_rel)
  from p' obtain e4 where e4: "p = sqrt np_pi * (1 + e4)" "\<bar>e4\<bar> \<le> 1 / 2 ^ 53" by (rule fl_rel)
  from d obtain e5 where e5: "d = p * q * (1 + e5)" "\<bar>e5\<bar> \<le> 1 / 2 ^ 53"
    unfolding fmul_def by (rule fl_rel)
  from v' obtain e6 where e6: "v = a / d * (1 + e6)" "\<bar>e6\<bar> \<le> 1 / 2 ^ 53" by (rule fl_rel)
  define g where "g = sqrt ((1 + e1) * (1 + e2))"
  define F where "F = a / (sqrt np_pi * sqrt (2 * s\<^sup>2))"
  have g: "1 - 1 / 2 ^ 53 \<le> g" "g \<le> 1 + 1 / 2 ^ 53"
    unfolding g_def using e1(2) e2(2) by (rule sqrt_two_roundings)+
  have "s2 = (2 * s\<^sup>2) * ((1 + e1) * (1 + e2))"
    unfolding e2(1) e1(1) by (simp add: power2_eq_square)
  then have rt: "sqrt s2 = sqrt (2 * s\<^sup>2) * g"
    unfolding g_def by (simp only: real_sqrt_mult)
  have "v = a / (sqrt np_pi * (1 + e4) * (sqrt (2 * s\<^sup>2) * g * (1 + e3)) * (1 + e5)) * (1 + e6)"
    unfolding e6(1) e5(1) e4(1) e3(1) rt ..
  also have "\<dots> = F * ((1 + e6) / (g * (1 + e3) * (1 + e4) * (1 + e5)))"
    unfolding F_def by (rule regroup_quotient)
  finally have "v - F = F * ((1 + e6) / (g * (1 + e3) * (1 + e4) * (1 + e5)) - 1)"
    by (simp add: algebra_simps)
  then have "\<bar>v - F\<bar> = \<bar>F\<bar> * \<bar>(1 + e6) / (g * (1 + e3) * (1 + e4) * (1 + e5)) - 1\<bar>"
    by (simp add: abs_mult)
  also have "\<dots> \<le> \<bar>F\<bar> * (6 / 2 ^ 53)"
    by (intro mult_left_mono five_roundings g e3 e4 e5 e6) simp
  finally show ?thesis unfolding F_def by (simp add: mult.commute)
qed

text \<open>
  Ranges: an operation whose operands are bounded away from the limits of the exponent
  range returns a value.
\<close>

lemma min_normal_eq: "min_normal = 1 / 2 ^ 1022"
proof -
  have "(2::real) powr (- 1022) = 1 / 2 powr 1022" by (simp add: powr_minus_divide)
  also have "(2::real) powr 1022 = 2 ^ 1022" by (rule powr_numeral) simp
  finally show ?thesis by (simp only: min_normal_def)
qed

lemma max_double_big: "2 ^ 1023 \<le> max_double"
proof -
  have e: "(2::real) powr 1023 = 2 ^ 1023" by (rule powr_numeral) simp
  have "(2::real) powr (- 52) \<le> 1" by (simp add: powr_minus_divide)
  then have "1 \<le> 2 - (2::real) powr (- 52)" by simp
  then have "1 * (2::real) powr 1023 \<le> (2 - 2 powr (- 52)) * 2 powr 1023"
    by (rule mult_right_mono) simp
  then show ?thesis unfolding max_double_def e by simp
qed

lemma fl_range:
  assumes "L \<le> x" "x \<le> H" "1 / 2 ^ 1022 \<le> L" "2 * H \<le> 2 ^ 1023"
  obtains y where "fl64 x = Some y" "L / 2 \<le> y" "y \<le> 2 * H"
proof -
  have "(0::real) < 1 / 2 ^ 1022" by simp
  with assms have x: "0 < x" by linarith
  have r: "\<bar>rnd x - x\<bar> \<le> x / 2 ^ 53" using rnd_rel [of x] x by simp
  have "x / 2 ^ 53 \<le> x / 2" using x by (intro divide_left_mono) simp_all
  with r have r2: "\<bar>rnd x - x\<bar> \<le> x / 2" by (rule order_trans)
  have lo: "x / 2 \<le> rnd x" using r2 by linarith
  have hi: "rnd x \<le> 2 * x" using r2 x by linarith
  have "min_normal \<le> \<bar>x\<bar>" using assms x by (simp add: min_normal_eq)
  moreover have "\<bar>rnd x\<bar> \<le> max_double" using lo hi x assms max_double_big by simp
  ultimately have "fl64 x = Some (rnd x)" using x by (simp add: fl64_def)
  moreover have "L / 2 \<le> rnd x" using lo assms by simp
  moreover have "rnd x \<le> 2 * H" using hi assms by simp
  ultimately show ?thesis by (rule that)
qed

lemma fmul_range:
  assumes "La \<le> a" "a \<le> Ha" "Lb \<le> b" "b \<le> Hb" "0 < La" "0 < Lb"
    and "1 / 2 ^ 1022 \<le> La * Lb" "2 * (Ha * Hb) \<le> 2 ^ 1023"
  obtains y where "fmul a b = Some y" "La * Lb / 2 \<le> y" "y \<le> 2 * (Ha * Hb)"
proof -
  have "La * Lb \<le> a * b" using assms by (intro mult_mono) simp_all
  moreover have "a * b \<le> Ha * Hb" using assms by (intro mult_mono) simp_all
  ultimately show ?thesis using assms(7,8) that unfolding fmul_def by (rule fl_range)
qed

lemma fdiv_range:
  assumes "La \<le> a" "a \<le> Ha" "Lb \<le> b" "b \<le> Hb" "0 < La" "0 < Lb"
    and "1 / 2 ^ 1022 \<le> La / Hb" "2 * (Ha / Lb) \<le> 2 ^ 1023"
  obtains y where "fdiv a b = Some y" "La / Hb / 2 \<le> y" "y \<le> 2 * (Ha / Lb)"
proof -
  have b: "b \<noteq> 0" using assms by simp
  have "La / Hb \<le> a / b" using assms by (intro frac_le) simp_all
  moreover have "a / b \<le> Ha / Lb" using assms by (intro frac_le) simp_all
  ultimately obtain y where "fl64 (a / b) = Some y" "La / Hb / 2 \<le> y" "y \<le> 2 * (Ha / Lb)"
    using assms(7,8) by (rule fl_range)
  then show ?thesis using b that by (simp add: fdiv_def)
qed

lemma fsqrt_range:
  assumes "L\<^sup>2 \<le> a" "a \<le> H\<^sup>2" "0 < L" "0 \<le> H"
    and "1 / 2 ^ 1022 \<le> L" "2 * H \<le> 2 ^ 1023"
  obtains y where "fsqrt a = Some y" "L / 2 \<le> y" "y \<le> 2 * H"
proof -
  have a: "0 \<le> a" using assms(1) zero_le_power2 [of L] by linarith
  have "L \<le> sqrt a" using assms by (intro real_le_rsqrt) simp
  moreover have "sqrt a \<le> H" using assms by (intro real_le_lsqrt) simp_all
  ultimately obtain y where "fl64 (sqrt a) = Some y" "L / 2 \<le> y" "y \<le> 2 * H"
    using assms(5,6) by (rule fl_range)
  then show ?thesis using a that by (simp add: fsqrt_def)
qed

lemma common_range:
  assumes "1 / 2 ^ 100 \<le> s" "s \<le> 2 ^ 100"
  obtains ss s2 q d where "fmul s s = Some ss" "fmul ss 2 = Some s2" "fsqrt s2 = Some q"
    "fmul (3991211251234741 / 2251799813685248) q = Some d"
    "1 / 2 ^ 102 \<le> q" "q \<le> 2 ^ 103" "1 / 2 ^ 103 \<le> d" "d \<le> 2 ^ 105"
proof -
  from assms assms obtain ss where ss: "fmul s s = Some ss"
    and ssb: "1 / 2 ^ 100 * (1 / 2 ^ 100) / 2 \<le> ss" "ss \<le> 2 * (2 ^ 100 * 2 ^ 100)"
    by (rule fmul_range) simp_all
  have two: "(2::real) \<le> 2" by simp
  from ssb two two obtain s2 where s2: "fmul ss 2 = Some s2"
    and s2b: "1 / 2 ^ 100 * (1 / 2 ^ 100) / 2 * 2 / 2 \<le> s2" "s2 \<le> 2 * (2 * (2 ^ 100 * 2 ^ 100) * 2)"
    by (rule fmul_range) simp_all
  have "(1 / 2 ^ 101)\<^sup>2 \<le> s2" using s2b(1) by (simp add: power2_eq_square)
  moreover have "s2 \<le> (2 ^ 102)\<^sup>2" using s2b(2) by (simp add: power2_eq_square)
  ultimately obtain q where q: "fsqrt s2 = Some q"
    and qb: "1 / 2 ^ 101 / 2 \<le> q" "q \<le> 2 * 2 ^ 102"
    by (rule fsqrt_range) simp_all
  have p: "1 \<le> (3991211251234741 / 2251799813685248 :: real)"
    "(3991211251234741 / 2251799813685248 :: real) \<le> 2" by simp_all
  from p qb obtain d where d: "fmul (3991211251234741 / 2251799813685248) q = Some d"
    and db: "1 * (1 / 2 ^ 101 / 2) / 2 \<le> d" "d \<le> 2 * (2 * (2 * 2 ^ 102))"
    by (rule fmul_range) simp_all
  show ?thesis using ss s2 q d qb db by (intro that) simp_all
qed

lemma amp_roundtrip_returns:
  assumes "1 / 2 ^ 100 \<le> a" "a \<le> 2 ^ 100" "1 / 2 ^ 100 \<le> s" "s \<le> 2 ^ 100"
  shows "(\<exists>v w. amp2d_to_3d_fp a s s = Some v \<and> amp3d_to_2d v s s = Some w)
       \<and> (\<exists>v w. amp3d_to_2d a s s = Some v \<and> amp2d_to_3d_fp v s s = Some w)"
proof -
  from assms(3,4) obtain ss s2 q d where c: "fmul s s = Some ss" "fmul ss 2 = Some s2"
    "fsqrt s2 = Some q" "fmul (3991211251234741 / 2251799813685248) q = Some d"
    and qb: "1 / 2 ^ 102 \<le> q" "q \<le> 2 ^ 103" and db: "1 / 2 ^ 103 \<le> d" "d \<le> 2 ^ 105"
    by (rule common_range)
  have p: "1 \<le> (3991211251234741 / 2251799813685248 :: real)"
    "(3991211251234741 / 2251799813685248 :: real) \<le> 2" by simp_all
  from assms(1,2) db obtain v where v: "fdiv a d = Some v"
    and vb: "1 / 2 ^ 100 / 2 ^ 105 / 2 \<le> v" "v \<le> 2 * (2 ^ 100 / (1 / 2 ^ 103))"
    by (rule fdiv_range) simp_all
  from vb p obtain t where t: "fmul v (3991211251234741 / 2251799813685248) = Some t"
    and tb: "1 / 2 ^ 100 / 2 ^ 105 / 2 * 1 / 2 \<le> t" "t \<le> 2 * (2 * (2 ^ 100 / (1 / 2 ^ 103)) * 2)"
    by (rule fmul_range) simp_all
  from tb qb obtain w where w: "fmul t q = Some w"
    by (rule fmul_range) simp_all
  from assms(1,2) p obtain t' where t': "fmul a (3991211251234741 / 2251799813685248) = Some t'"
    and t'b: "1 / 2 ^ 100 * 1 / 2 \<le> t'" "t' \<le> 2 * (2 ^ 100 * 2)"
    by (rule fmul_range) simp_all
  from t'b qb obtain v' where v': "fmul t' q = Some v'"
    and v'b: "1 / 2 ^ 100 * 1 / 2 * (1 / 2 ^ 102) / 2 \<le> v'" "v' \<le> 2 * (2 * (2 ^ 100 * 2) * 2 ^ 103)"
    by (rule fmul_range) simp_all
  from v'b db obtain w' where w': "fdiv v' d = Some w'"
    by (rule fdiv_range) simp_all
  have "amp2d_to_3d_fp a s s = Some v"
    by (simp add: amp2d_to_3d_fp_def sqrt_pi_double c v)
  moreover have "amp3d_to_2d v s s = Some w"
    by (simp add: amp3d_to_2d_def sqrt_pi_double c t w)
  moreover have "amp3d_to_2d a s s = Some v'"
    by (simp add: amp3d_to_2d_def sqrt_pi_double c t' v')
  moreover have "amp2d_to_3d_fp v' s s = Some w'"
    by (simp add: amp2d_to_3d_fp_def sqrt_pi_double c w')
  ultimately show ?thesis by blast
qed

text \<open>
  Claim C5, as amended. The amplitude converters are inverses of each other up to
  rounding. In double precision, whenever the operations stay in the range of the
  normal doubles: \<open>_amp2d_to_3d(a, s, s)\<close> is within relative error \<open>6 * 2^-53\<close> of
  \<open>a / (sqrt(np.pi) * sqrt(2 s^2))\<close>; \<open>_amp3d_to_2d\<close> of that value is within relative
  error \<open>5 * 2^-53\<close> of \<open>a\<close>; and \<open>_amp2d_to_3d\<close> of \<open>_amp3d_to_2d(a, s, s)\<close> is within
  relative error \<open>5 * 2^-53\<close> of \<open>a\<close>. For \<open>2^-100 \<le> a \<le> 2^100\<close> and
  \<open>2^-100 \<le> s \<le> 2^100\<close> the operations do stay in that range: both round trips
  return a value.
\<close>

theorem amp_roundtrip_tolerance:
  "(amp2d_to_3d_fp a s s = Some v \<longrightarrow>
      \<bar>v - a / (sqrt np_pi * sqrt (2 * s\<^sup>2))\<bar>
        \<le> 6 / 2 ^ 53 * \<bar>a / (sqrt np_pi * sqrt (2 * s\<^sup>2))\<bar>
      \<and> (amp3d_to_2d v s s = Some w \<longrightarrow> \<bar>w - a\<bar> \<le> 5 / 2 ^ 53 * \<bar>a\<bar>))
   \<and> (amp3d_to_2d a s s = Some v' \<longrightarrow> amp2d_to_3d_fp v' s s = Some w'
      \<longrightarrow> \<bar>w' - a\<bar> \<le> 5 / 2 ^ 53 * \<bar>a\<bar>)
   \<and> (1 / 2 ^ 100 \<le> a \<and> a \<le> 2 ^ 100 \<and> 1 / 2 ^ 100 \<le> s \<and> s \<le> 2 ^ 100 \<longrightarrow>
        (\<exists>v w. amp2d_to_3d_fp a s s = Some v \<and> amp3d_to_2d v s s = Some w)
      \<and> (\<exists>v w. amp3d_to_2d a s s = Some v \<and> amp2d_to_3d_fp v s s = Some w))"
  using amp2d_to_3d_fp_formula [of a s v] amp_roundtrip_forward [of a s v w]
    amp_roundtrip_backward [of a s v' w'] amp_roundtrip_returns [of a s]
  by blast

theorem amp_roundtrip_tolerance_witness:
  "amp2d_to_3d_fp 5 1 1 = Some (2245845381697785 / 1125899906842624)
   \<and> \<bar>2245845381697785 / 1125899906842624 - 5 / (sqrt np_pi * sqrt (2 * 1\<^sup>2))\<bar>
       \<le> 6 / 2 ^ 53 * \<bar>5 / (sqrt np_pi * sqrt (2 * 1\<^sup>2))\<bar>
   \<and> amp3d_to_2d (2245845381697785 / 1125899906842624) 1 1 = Some (5629499534213119 / 1125899906842624)
   \<and> \<bar>5629499534213119 / 1125899906842624 - 5\<bar> \<le> 5 / 2 ^ 53 * \<bar>5 :: real\<bar>
   \<and> amp3d_to_2d 5 1 1 = Some (7055531352240327 / 562949953421312)
   \<and> amp2d_to_3d_fp (7055531352240327 / 562949953421312) 1 1 = Some 5
   \<and> (\<exists>v w. amp2d_to_3d_fp 5 1 1 = Some v \<and> amp3d_to_2d v 1 1 = Some w)
   \<and> (\<exists>v w. amp3d_to_2d 5 1 1 = Some v \<and> amp2d_to_3d_fp v 1 1 = Some w)"
proof -
  note f1 = amp2d_to_3d_fp_five and f2 = amp3d_to_2d_back
    and b1 = amp3d_to_2d_five and b2 = amp2d_to_3d_fp_back
  have r: "1 / 2 ^ 100 \<le> (5::real) \<and> (5::real) \<le> 2 ^ 100
      \<and> 1 / 2 ^ 100 \<le> (1::real) \<and> (1::real) \<le> 2 ^ 100" by simp
  note t = amp_roundtrip_tolerance [of 5 1 "2245845381697785 / 1125899906842624" "5629499534213119 / 1125899906842624" "7055531352240327 / 562949953421312" 5]
  from t f1 have "\<bar>2245845381697785 / 1125899906842624 - 5 / (sqrt np_pi * sqrt (2 * 1\<^sup>2))\<bar>
       \<le> 6 / 2 ^ 53 * \<bar>5 / (sqrt np_pi * sqrt (2 * 1\<^sup>2))\<bar>" by blast
  moreover from t f1 f2 have "\<bar>5629499534213119 / 1125899906842624 - 5\<bar> \<le> 5 / 2 ^ 53 * \<bar>5 :: real\<bar>" by blast
  moreover from t r have "(\<exists>v w. amp2d_to_3d_fp 5 1 1 = Some v \<and> amp3d_to_2d v 1 1 = Some w)
      \<and> (\<exists>v w. amp3d_to_2d 5 1 1 = Some v \<and> amp2d_to_3d_fp v 1 1 = Some w)" by blast
  ultimately show ?thesis using f1 f2 b1 b2 by blast
qed

text \<open>
  Claim C5 as stated fails: the converters are not exact inverses, in either order.
  For \<open>s = 1\<close>, \<open>_amp2d_to_3d(5, 1, 1)\<close> is the double \<open>1.9947114020071635\<close> and
  \<open>_amp3d_to_2d\<close> of it is \<open>4.999999999999999 = 5 - 2^-50\<close>, not \<open>5\<close>; and
  \<open>_amp3d_to_2d(9, 1, 1)\<close> is the double \<open>22.559654471679004\<close> and \<open>_amp2d_to_3d\<close> of it
  is \<open>8.999999999999998 = 9 - 2^-49\<close>, not \<open>9\<close>.
\<close>

theorem amp_roundtrip_not_exact:
  "amp2d_to_3d_fp 5 1 1 = Some (2245845381697785 / 1125899906842624)
   \<and> amp3d_to_2d (2245845381697785 / 1125899906842624) 1 1 = Some (5 - 1 / 2 ^ 50)
   \<and> amp3d_to_2d 9 1 1 = Some (3174989108508147 / 140737488355328)
   \<and> amp2d_to_3d_fp (3174989108508147 / 140737488355328) 1 1 = Some (9 - 1 / 2 ^ 49)
   \<and> (5 - 1 / 2 ^ 50 :: real) \<noteq> 5 \<and> (9 - 1 / 2 ^ 49 :: real) \<noteq> 9"
  by (simp add: amp2d_to_3d_fp_five amp3d_to_2d_back amp3d_to_2d_nine amp2d_to_3d_fp_nine_back)




text \<open>
  Claim C7. For \<open>sigma > 0\<close> (and any amplitude) the potential at the centre is exactly
  0: \<open>_num_integral\<close> returns 0 at radius 0 without calling the quadrature, and
  \<open>function\<close> returns that integral times the prefactor, for a scalar position and for
  every entry of a position array.
\<close>

theorem potential_zero_at_center:
  assumes "0 < sigma"
  shows "num_integral quad 0 c = 0
       \<and> result (gaussian_function quad cx cy amp sigma cx cy) = Some 0
       \<and> result (gaussian_function_array quad (replicate n cx) (replicate n cy) amp sigma cx cy)
           = Some (replicate n 0)"
proof -
  have "result (gaussian_function_array quad (replicate n cx) (replicate n cy) amp sigma cx cy)
           = Some (replicate n 0)"
    using assms
    by (simp add: num_integral_def gaussian_function_array_def Let_def
      amp2d_to_3d_def result_bind result_pydiv result_ret broadcast2_def map_replicate_const
      map_upt_replicate)
  then show ?thesis
    using assms
    by (simp add: num_integral_def gaussian_function_def Let_def
      amp2d_to_3d_def result_bind result_pydiv result_ret)
qed

theorem potential_zero_at_center_witness:
  "num_integral (\<lambda>f a b. 1) 0 2 = 0
     \<and> result (gaussian_function (\<lambda>f a b. 1) 1 2 3 1 1 2) = Some 0
     \<and> result (gaussian_function_array (\<lambda>f a b. 1) [1, 1] [2, 2] 3 1 1 2) = Some [0, 0]"
proof -
  have "(0::real) < 1" by simp
  from potential_zero_at_center [OF this, of "\<lambda>f a b. 1" 2 1 2 3 2] show ?thesis
    by (simp add: numeral_2_eq_2)
qed

section \<open>Verification of the position matcher\<close>

lemma argmin_list_less: "xs \<noteq> [] \<Longrightarrow> argmin_list xs < length xs"
  by (induction xs rule: argmin_list.induct) (auto simp: Let_def)

lemma argmin_list_min: "i < length xs \<Longrightarrow> xs ! argmin_list xs \<le> xs ! i"
proof (induction xs arbitrary: i rule: argmin_list.induct)
  case 1 then show ?case by simp
next
  case (2 x) then show ?case by simp
next
  case (3 x y ys)
  let ?j = "argmin_list (y # ys)"
  show ?case
  proof (cases i)
    case 0
    then show ?thesis by (auto simp: Let_def)
  next
    case (Suc i')
    with 3 have "(y # ys) ! ?j \<le> (y # ys) ! i'" by simp
    with Suc show ?thesis by (auto simp: Let_def)
  qed
qed

lemma argmin_list_first: "i < argmin_list xs \<Longrightarrow> xs ! argmin_list xs < xs ! i"
proof (induction xs arbitrary: i rule: argmin_list.induct)
  case 1 then show ?case by simp
next
  case (2 x) then show ?case by simp
next
  case (3 x y ys)
  let ?j = "argmin_list (y # ys)"
  show ?case
  proof (cases "x \<le> (y # ys) ! ?j")
    case True
    with 3(2) show ?thesis by (simp add: Let_def)
  next
    case False
    show ?thesis
    proof (cases i)
      case 0
      with False show ?thesis by (simp add: Let_def)
    next
      case (Suc i')
      with 3(2) False have "i' < ?j" by (simp add: Let_def)
      then have "(y # ys) ! ?j < (y # ys) ! i'" by (rule 3(1))
      with Suc False show ?thesis by (simp add: Let_def)
    qed
  qed
qed

lemma bind_err_Inr [simp]: "bind_err (Inr a) f = f a"
  by (simp add: bind_err_def)

lemma bind_err_Inl [simp]: "bind_err (Inl e) f = Inl e"
  by (simp add: bind_err_def)

lemma nth_py_Inr: "i < length xs \<Longrightarrow> nth_py xs i = Inr (xs ! i)"
  by (simp add: nth_py_def)

lemma take_drop_map: "take j (map f xs) @ drop (Suc j) (map f xs) = map f (take j xs @ drop (Suc j) xs)"
  by (simp add: take_map drop_map)

lemma sort_loop_greedy:
  assumes "\<forall>i\<in>set is. i < length x_o \<and> i < length y_o" and "length is \<le> length pool"
  shows "sort_loop x_o y_o (map (\<lambda>k. fst (S k)) pool) (map (\<lambda>k. snd (S k)) pool) xn yn is =
     (let g = greedy_indices (map (\<lambda>i. (x_o ! i, y_o ! i)) is) S pool
      in Inr (xn @ map (\<lambda>k. fst (S k)) (take (length is) g),
              yn @ map (\<lambda>k. snd (S k)) (take (length is) g),
              map (\<lambda>k. fst (S k)) (drop (length is) g),
              map (\<lambda>k. snd (S k)) (drop (length is) g)))"
  using assms
proof (induction "is" arbitrary: pool xn yn)
  case Nil
  then show ?case by simp
next
  case (Cons i rest)
  let ?p = "(x_o ! i, y_o ! i)"
  let ?d = "map (\<lambda>k. sqdist ?p (S k)) pool"
  let ?j = "argmin_list ?d"
  let ?pool' = "take ?j pool @ drop (Suc ?j) pool"
  from Cons.prems have ne: "pool \<noteq> []" by auto
  then have j: "?j < length pool" using argmin_list_less [of ?d] by simp
  have r2: "broadcast2 (+) (map (\<lambda>s. (x_o ! i - s)\<^sup>2) (map (\<lambda>k. fst (S k)) pool))
              (map (\<lambda>s. (y_o ! i - s)\<^sup>2) (map (\<lambda>k. snd (S k)) pool)) = Inr ?d"
    by (simp add: broadcast2_def sqdist_def zip_map_map zip_same_conv_map)
  have am: "argmin ?d = Inr ?j" using ne by (simp add: argmin_def)
  have len': "length rest \<le> length ?pool'" using Cons.prems j by simp
  have IH: "sort_loop x_o y_o (map (\<lambda>k. fst (S k)) ?pool') (map (\<lambda>k. snd (S k)) ?pool')
              (xn @ [fst (S (pool ! ?j))]) (yn @ [snd (S (pool ! ?j))]) rest = 
     (let g = greedy_indices (map (\<lambda>i. (x_o ! i, y_o ! i)) rest) S ?pool'
      in Inr ((xn @ [fst (S (pool ! ?j))]) @ map (\<lambda>k. fst (S k)) (take (length rest) g),
              (yn @ [snd (S (pool ! ?j))]) @ map (\<lambda>k. snd (S k)) (take (length rest) g),
              map (\<lambda>k. fst (S k)) (drop (length rest) g),
              map (\<lambda>k. snd (S k)) (drop (length rest) g)))"
    using Cons.IH [OF _ len'] Cons.prems(1) by simp
  have step: "sort_loop x_o y_o (map (\<lambda>k. fst (S k)) pool) (map (\<lambda>k. snd (S k)) pool) xn yn (i # rest)
      = sort_loop x_o y_o (map (\<lambda>k. fst (S k)) ?pool') (map (\<lambda>k. snd (S k)) ?pool')
              (xn @ [fst (S (pool ! ?j))]) (yn @ [snd (S (pool ! ?j))]) rest"
    using Cons.prems(1) j
    by (simp add: nth_py_Inr r2 am np_delete_def take_drop_map del: map_map)
  show ?case
    unfolding step IH by (simp add: Let_def)
qed

lemma set_remove_nth:
  assumes "j < length pool"
  shows "insert (pool ! j) (set (take j pool @ drop (Suc j) pool)) = set pool"
proof -
  have "pool = take j pool @ pool ! j # drop (Suc j) pool"
    using assms by (rule id_take_nth_drop)
  then have "set pool = set (take j pool @ pool ! j # drop (Suc j) pool)" by simp
  then show ?thesis by auto
qed

lemma distinct_remove_nth:
  assumes "j < length pool" "distinct pool"
  shows "distinct (take j pool @ drop (Suc j) pool) \<and> pool ! j \<notin> set (take j pool @ drop (Suc j) pool)"
proof -
  have "pool = take j pool @ pool ! j # drop (Suc j) pool"
    using assms(1) by (rule id_take_nth_drop)
  then have "distinct (take j pool @ pool ! j # drop (Suc j) pool)" using assms(2) by simp
  then show ?thesis by auto
qed

lemma sorted_wrt_remove_nth:
  assumes "sorted_wrt R pool"
  shows "sorted_wrt R (take j pool @ drop (Suc j) pool)"
proof -
  have a: "sorted_wrt R (take j pool @ drop j pool)" using assms by simp
  have b: "set (drop (Suc j) pool) \<subseteq> set (drop j pool)"
    by (rule set_drop_subset_set_drop) simp
  have c: "sorted_wrt R (drop (Suc j) pool)" using assms by (rule sorted_wrt_drop)
  show ?thesis using a b c unfolding sorted_wrt_append by blast
qed

lemma greedy_indices_length:
  "length ps \<le> length pool \<Longrightarrow> length (greedy_indices ps S pool) = length pool"
proof (induction ps arbitrary: pool)
  case Nil then show ?case by simp
next
  case (Cons p ps)
  let ?j = "argmin_list (map (\<lambda>k. sqdist p (S k)) pool)"
  from Cons.prems have "pool \<noteq> []" by auto
  then have j: "?j < length pool" using argmin_list_less [of "map (\<lambda>k. sqdist p (S k)) pool"] by simp
  with Cons.prems have "length ps \<le> length (take ?j pool @ drop (Suc ?j) pool)" by simp
  from Cons.IH [OF this] j show ?case by (simp add: Let_def)
qed

lemma greedy_indices_set:
  "length ps \<le> length pool \<Longrightarrow> set (greedy_indices ps S pool) = set pool"
proof (induction ps arbitrary: pool)
  case Nil then show ?case by simp
next
  case (Cons p ps)
  let ?j = "argmin_list (map (\<lambda>k. sqdist p (S k)) pool)"
  from Cons.prems have "pool \<noteq> []" by auto
  then have j: "?j < length pool" using argmin_list_less [of "map (\<lambda>k. sqdist p (S k)) pool"] by simp
  with Cons.prems have "length ps \<le> length (take ?j pool @ drop (Suc ?j) pool)" by simp
  from Cons.IH [OF this] set_remove_nth [OF j] show ?case by (simp add: Let_def)
qed

lemma greedy_indices_distinct:
  "length ps \<le> length pool \<Longrightarrow> distinct pool \<Longrightarrow> distinct (greedy_indices ps S pool)"
proof (induction ps arbitrary: pool)
  case Nil then show ?case by simp
next
  case (Cons p ps)
  let ?j = "argmin_list (map (\<lambda>k. sqdist p (S k)) pool)"
  let ?pool' = "take ?j pool @ drop (Suc ?j) pool"
  from Cons.prems have "pool \<noteq> []" by auto
  then have j: "?j < length pool" using argmin_list_less [of "map (\<lambda>k. sqdist p (S k)) pool"] by simp
  with Cons.prems have len: "length ps \<le> length ?pool'" by simp
  from distinct_remove_nth [OF j Cons.prems(2)]
  have d: "distinct ?pool'" and n: "pool ! ?j \<notin> set ?pool'" by simp_all
  from Cons.IH [OF len d] n greedy_indices_set [OF len, of S] show ?case by (simp add: Let_def)
qed

lemma greedy_indices_leftover:
  "length ps \<le> length pool \<Longrightarrow> sorted_wrt R pool
     \<Longrightarrow> sorted_wrt R (drop (length ps) (greedy_indices ps S pool))"
proof (induction ps arbitrary: pool)
  case Nil then show ?case by simp
next
  case (Cons p ps)
  let ?j = "argmin_list (map (\<lambda>k. sqdist p (S k)) pool)"
  let ?pool' = "take ?j pool @ drop (Suc ?j) pool"
  from Cons.prems have "pool \<noteq> []" by auto
  then have j: "?j < length pool" using argmin_list_less [of "map (\<lambda>k. sqdist p (S k)) pool"] by simp
  with Cons.prems have len: "length ps \<le> length ?pool'" by simp
  from Cons.IH [OF len sorted_wrt_remove_nth [OF Cons.prems(2)]] show ?case by (simp add: Let_def)
qed

lemma argmin_nearest_first:
  assumes "pool \<noteq> []" "sorted_wrt (<) pool"
  shows "nearest_first S p (set pool) (pool ! argmin_list (map (\<lambda>k. sqdist p (S k)) pool))"
proof -
  let ?d = "map (\<lambda>k. sqdist p (S k)) pool"
  let ?j = "argmin_list ?d"
  have j: "?j < length pool" using assms(1) argmin_list_less [of ?d] by simp
  have min: "sqdist p (S (pool ! ?j)) \<le> sqdist p (S k')" if "k' \<in> set pool" for k'
  proof -
    from that obtain i where i: "i < length pool" "pool ! i = k'" by (auto simp: in_set_conv_nth)
    with argmin_list_min [of i ?d] j show ?thesis by simp
  qed
  have first: "sqdist p (S (pool ! ?j)) < sqdist p (S k')" if "k' \<in> set pool" "k' < pool ! ?j" for k'
  proof -
    from that obtain i where i: "i < length pool" "pool ! i = k'" by (auto simp: in_set_conv_nth)
    have "i < ?j"
    proof (rule ccontr)
      assume "\<not> i < ?j"
      then have "?j \<le> i" by simp
      then have "pool ! ?j \<le> pool ! i"
        using assms(2) i(1) by (cases "?j = i") (auto simp: sorted_wrt_iff_nth_less less_imp_le)
      with that(2) i(2) show False by simp
    qed
    with argmin_list_first [of i ?d] i j show ?thesis by simp
  qed
  show ?thesis
    unfolding nearest_first_def using j min first by auto
qed

lemma greedy_indices_nearest:
  "length ps \<le> length pool \<Longrightarrow> sorted_wrt (<) pool \<Longrightarrow> i < length ps
     \<Longrightarrow> nearest_first S (ps ! i) (set pool - set (take i (greedy_indices ps S pool)))
           (greedy_indices ps S pool ! i)"
proof (induction ps arbitrary: pool i)
  case Nil then show ?case by simp
next
  case (Cons p ps)
  let ?j = "argmin_list (map (\<lambda>k. sqdist p (S k)) pool)"
  let ?pool' = "take ?j pool @ drop (Suc ?j) pool"
  from Cons.prems have ne: "pool \<noteq> []" by auto
  then have j: "?j < length pool" using argmin_list_less [of "map (\<lambda>k. sqdist p (S k)) pool"] by simp
  with Cons.prems have len: "length ps \<le> length ?pool'" by simp
  have dist: "distinct pool" using Cons.prems(2) by (simp add: strict_sorted_iff)
  show ?case
  proof (cases i)
    case 0
    with argmin_nearest_first [OF ne Cons.prems(2), of S p] show ?thesis by (simp add: Let_def)
  next
    case (Suc i')
    with Cons.prems have i': "i' < length ps" by simp
    have eq: "set pool - insert (pool ! ?j) A = set ?pool' - A" for A
      using set_remove_nth [OF j] distinct_remove_nth [OF j dist] by blast
    from Cons.IH [OF len sorted_wrt_remove_nth [OF Cons.prems(2)] i'] Suc eq
    show ?thesis by (simp add: Let_def)
  qed
qed

lemma zip_as_map_upt:
  "length ys = length xs \<Longrightarrow> map (\<lambda>i. (xs ! i, ys ! i)) [0 ..< length xs] = zip xs ys"
  by (rule nth_equalityI) auto

lemma sort_position_by_original_indices:
  assumes "length y_o = length x_o" and "length y_solved = length x_solved"
    and "length x_o \<le> length x_solved"
  shows "sort_position_by_original x_o y_o x_solved y_solved =
     (let g = greedy_indices (zip x_o y_o) (\<lambda>k. (x_solved ! k, y_solved ! k)) [0 ..< length x_solved]
      in Inr (map (\<lambda>k. x_solved ! k) g, map (\<lambda>k. y_solved ! k) g))"
proof -
  let ?S = "\<lambda>k. (x_solved ! k, y_solved ! k)"
  let ?pool = "[0 ..< length x_solved]"
  let ?g = "greedy_indices (zip x_o y_o) ?S ?pool"
  have xs: "map (\<lambda>k. fst (?S k)) ?pool = x_solved" by (simp add: map_nth)
  have ys: "map (\<lambda>k. snd (?S k)) ?pool = y_solved"
    using map_nth [of y_solved] assms(2) by simp
  have idx: "\<forall>i\<in>set [0 ..< length x_o]. i < length x_o \<and> i < length y_o"
    using assms(1) by simp
  have len: "length [0 ..< length x_o] \<le> length ?pool" using assms(3) by simp
  have "sort_loop x_o y_o x_solved y_solved [] [] [0 ..< length x_o] =
      Inr (map (\<lambda>k. fst (?S k)) (take (length x_o) ?g), map (\<lambda>k. snd (?S k)) (take (length x_o) ?g),
           map (\<lambda>k. fst (?S k)) (drop (length x_o) ?g), map (\<lambda>k. snd (?S k)) (drop (length x_o) ?g))"
    using sort_loop_greedy [OF idx len, of ?S "[]" "[]"]
    unfolding xs ys zip_as_map_upt [OF assms(1)] by (simp add: Let_def)
  then show ?thesis
    using assms(3)
    by (simp add: sort_position_by_original_def Let_def flip: map_append)
qed

text \<open>
  Claim C2. For position arrays given as parallel \<open>x\<close> and \<open>y\<close> arrays of equal length:
  with more original than solved points the matcher returns the original arrays
  unchanged; otherwise it returns the solved points in the order of the index list
  \<open>g\<close>, which has the length of the solved arrays and uses every solved index exactly
  once; for each original point \<open>i\<close>, in order, \<open>g ! i\<close> is the nearest solved index by
  squared Euclidean distance among those not chosen before, the smallest such index
  when several are equally near; and the indices after the first \<open>len(original)\<close> are
  the leftover ones in ascending (solved) order.
\<close>

theorem sort_position_by_original_greedy:
  assumes "length y_o = length x_o" and "length y_solved = length x_solved"
    and "S = (\<lambda>k. (x_solved ! k, y_solved ! k))"
    and "g = greedy_indices (zip x_o y_o) S [0 ..< length x_solved]"
  shows "(length x_solved < length x_o \<longrightarrow>
            sort_position_by_original x_o y_o x_solved y_solved = Inr (x_o, y_o))
       \<and> (length x_o \<le> length x_solved \<longrightarrow>
            sort_position_by_original x_o y_o x_solved y_solved
              = Inr (map (\<lambda>k. x_solved ! k) g, map (\<lambda>k. y_solved ! k) g)
          \<and> length g = length x_solved
          \<and> distinct g
          \<and> set g = {0 ..< length x_solved}
          \<and> (\<forall>i < length x_o.
                nearest_first S (zip x_o y_o ! i) ({0 ..< length x_solved} - set (take i g)) (g ! i))
          \<and> sorted_wrt (<) (drop (length x_o) g))"
proof (intro conjI impI)
  assume "length x_solved < length x_o"
  then show "sort_position_by_original x_o y_o x_solved y_solved = Inr (x_o, y_o)"
    by (simp add: sort_position_by_original_def)
next
  assume le: "length x_o \<le> length x_solved"
  let ?pool = "[0 ..< length x_solved]"
  have len: "length (zip x_o y_o) \<le> length ?pool" using le assms(1) by simp
  have srt: "sorted_wrt (<) ?pool" by simp
  show "sort_position_by_original x_o y_o x_solved y_solved
              = Inr (map (\<lambda>k. x_solved ! k) g, map (\<lambda>k. y_solved ! k) g)"
    using sort_position_by_original_indices [OF assms(1,2) le] assms(3,4) by (simp add: Let_def)
  show "length g = length x_solved"
    using greedy_indices_length [OF len, of S] assms(4) by simp
  show "distinct g"
    using greedy_indices_distinct [OF len, of S] assms(4) by simp
  show "set g = {0 ..< length x_solved}"
    using greedy_indices_set [OF len, of S] assms(4) by simp
  show "\<forall>i < length x_o.
                nearest_first S (zip x_o y_o ! i) ({0 ..< length x_solved} - set (take i g)) (g ! i)"
  proof (intro allI impI)
    fix i assume "i < length x_o"
    then have "i < length (zip x_o y_o)" using assms(1) by simp
    from greedy_indices_nearest [OF len srt this, of S] assms(4) show
      "nearest_first S (zip x_o y_o ! i) ({0 ..< length x_solved} - set (take i g)) (g ! i)"
      by simp
  qed
  show "sorted_wrt (<) (drop (length x_o) g)"
    using greedy_indices_leftover [OF len srt, of S] assms(1,4) by simp
qed

theorem sort_position_by_original_greedy_witness:
  "sort_position_by_original [1, 2] [3, 4] [5] [6] = Inr ([1, 2], [3, 4])
     \<and> sort_position_by_original [0, 10] [0, 10] [9, 1, 5] [9, 1, 5] = Inr ([1, 9, 5], [1, 9, 5])
     \<and> nearest_first (\<lambda>k. ([9, 1, 5] ! k, [9, 1, 5] ! k)) (0, 0) {0, 1, 2} 1
     \<and> nearest_first (\<lambda>k. ([9, 1, 5] ! k, [9, 1, 5] ! k)) (10, 10) {0, 2} 0"
proof -
  have a: "length [3, 4 :: real] = length [1, 2 :: real]" "length [6 :: real] = length [5 :: real]"
    by simp_all
  have b: "length [0, 10 :: real] = length [0, 10 :: real]"
    "length [9, 1, 5 :: real] = length [9, 1, 5 :: real]"
    by simp_all
  have g: "greedy_indices (zip [0, 10] [0, 10]) (\<lambda>k. ([9, 1, 5 :: real] ! k, [9, 1, 5 :: real] ! k))
             [0 ..< length [9, 1, 5 :: real]] = [1, 0, 2]"
    by (simp add: sqdist_def Let_def upt_rec)
  have s: "{0 ..< length [9, 1, 5 :: real]} = {0, 1, 2}" by auto
  from sort_position_by_original_greedy [OF a refl refl]
  have 1: "sort_position_by_original [1, 2] [3, 4] [5] [6] = Inr ([1, 2], [3, 4])" by simp
  from sort_position_by_original_greedy [OF b refl refl]
  have B: "sort_position_by_original [0, 10] [0, 10] [9, 1, 5] [9, 1, 5]
              = Inr (map (\<lambda>k. [9, 1, 5] ! k) [1, 0, 2], map (\<lambda>k. [9, 1, 5] ! k) [1, 0, 2])"
    and N: "\<forall>i < length [0, 10 :: real].
              nearest_first (\<lambda>k. ([9, 1, 5] ! k, [9, 1, 5] ! k)) (zip [0, 10] [0, 10] ! i)
                ({0, 1, 2} - set (take i [1, 0, 2])) ([1, 0, 2] ! i)"
    unfolding g s by simp_all
  have d: "{0, 1, 2} - {Suc 0} = {0, 2 :: nat}" "{0, Suc 0, 2} - {Suc 0} = {0, 2 :: nat}" by auto
  from N [rule_format, of 0]
  have 3: "nearest_first (\<lambda>k. ([9, 1, 5] ! k, [9, 1, 5] ! k)) (0, 0) {0, 1, 2} 1" by simp
  from N [rule_format, of 1]
  have 4: "nearest_first (\<lambda>k. ([9, 1, 5] ! k, [9, 1, 5] ! k)) (10, 10) {0, 2} 0"
    by (simp add: d)
  from 1 B 3 4 show ?thesis by simp
qed

section \<open>Verification of the construction of \<open>PointSource\<close>\<close>







section \<open>Verification of \<open>check_positive_flux\<close>\<close>

lemma fails_nonneg_iff:
  "fails_nonneg kwargs key \<longleftrightarrow> (\<exists>v. kwargs key = Some v \<and> has_negative v)"
  by (auto simp: fails_nonneg_def all_nonneg_def has_negative_def list_all_iff list_ex_iff not_le
      split: option.splits pyval.splits)

text \<open>
  Claim C8. \<open>check_positive_flux\<close> returns False if and only if some entry of
  \<open>kwargs_ps\<close> has a \<open>point_amp\<close> or \<open>source_amp\<close> value with at least one negative
  element, and True in every other case, also when neither key is present. It returns
  False for \<open>point_amp = [1.0, -0.3]\<close> and True for \<open>point_amp = [1.0, 0.3]\<close>.
\<close>

theorem check_positive_flux_iff:
  "(check_positive_flux kwargs_ps = False
      \<longleftrightarrow> (\<exists>kwargs\<in>set kwargs_ps. \<exists>key\<in>{''point_amp'', ''source_amp''}. \<exists>v.
             kwargs key = Some v \<and> has_negative v))
   \<and> check_positive_flux [[''point_amp'' \<mapsto> Arr [1, - 3 / 10]]] = False
   \<and> check_positive_flux [[''point_amp'' \<mapsto> Arr [1, 3 / 10]]] = True
   \<and> check_positive_flux [[''ra_image'' \<mapsto> Arr [1, - 3 / 10]]] = True"
proof -
  have "check_positive_flux kwargs_ps = False
      \<longleftrightarrow> (\<exists>kwargs\<in>set kwargs_ps. \<exists>key\<in>{''point_amp'', ''source_amp''}. \<exists>v.
             kwargs key = Some v \<and> has_negative v)"
    by (induction kwargs_ps) (auto simp: fails_nonneg_iff)
  moreover have "check_positive_flux [[''point_amp'' \<mapsto> Arr [1, - 3 / 10]]] = False"
    by (simp add: fails_nonneg_def all_nonneg_def)
  moreover have "check_positive_flux [[''point_amp'' \<mapsto> Arr [1, 3 / 10]]] = True"
    by (simp add: fails_nonneg_def all_nonneg_def)
  moreover have "check_positive_flux [[''ra_image'' \<mapsto> Arr [1, - 3 / 10]]] = True"
    by (simp add: fails_nonneg_def all_nonneg_def)
  ultimately show ?thesis by blast
qed

theorem check_positive_flux_iff_witness:
  "check_positive_flux [[''point_amp'' \<mapsto> Arr [1, - 3 / 10]]] = False
     \<and> check_positive_flux [[''point_amp'' \<mapsto> Arr [1, 3 / 10]]] = True
     \<and> check_positive_flux [[''ra_image'' \<mapsto> Arr [1, - 3 / 10]]] = True"
  using check_positive_flux_iff [of "[]"] by blast

section \<open>Verification of the linear-parameter bookkeeping\<close>

lemma image_position_loop_length:
  "image_position_loop ps mip kwargs_ps kwargs_lens None op ai i models = Inr (xs, ys)
     \<Longrightarrow> length xs = length models \<and> length ys = length models"
proof (induction models arbitrary: i xs ys)
  case Nil
  then show ?case by simp
next
  case (Cons m models)
  then show ?case
    by (auto simp: bind_err_def split: sum.splits prod.splits if_splits)
qed

lemma num_basis_loop_sum:
  assumes "i + length ts \<le> length (flux_from_point_source_list ps)"
    and "i + length ts \<le> length (fixed_magnification_list ps)"
    and "i + length ts \<le> length ra"
  shows "num_basis_loop ps ra n i ts
           = Inr (n + sum_list (map (block_length ps ra) [i ..< i + length ts]))"
  using assms
proof (induction ts arbitrary: n i)
  case Nil
  then show ?case by simp
next
  case (Cons t ts)
  have u: "[i ..< i + length (t # ts)] = i # [Suc i ..< Suc i + length ts]"
    using upt_conv_Cons [of i "Suc i + length ts"] by simp
  from Cons.prems have IH: "num_basis_loop ps ra n' (Suc i) ts
           = Inr (n' + sum_list (map (block_length ps ra) [Suc i ..< Suc i + length ts]))" for n'
    by (intro Cons.IH) auto
  have h: "block_length ps ra i =
     (if \<not> flux_from_point_source_list ps ! i then 0
      else if fixed_magnification_list ps ! i then 1
      else length (ra ! i))"
    by (simp add: block_length_def)
  from Cons.prems show ?case
    unfolding u by (simp add: nth_py_def IH h)
qed

text \<open>
  Claim C4. For an instance whose lists have one entry per declared source,
  \<open>num_basis\<close> returns the sum, over the declared sources in declaration order, of 0
  if the source's \<open>flux_from_point_source\<close> flag is False, else 1 if its
  \<open>fixed_magnification\<close> flag is True, else the number of image positions that
  \<open>image_position\<close> returns for that source.
\<close>

theorem num_basis_sum:
  assumes "consistent ps"
    and "image_position ps mip kwargs_ps kwargs_lens None False False = Inr (ra_pos_list, dec_pos_list)"
  shows "num_basis ps mip kwargs_ps kwargs_lens
           = Inr (sum_list (map (block_length ps ra_pos_list)
                              [0 ..< length (point_source_type_list ps)]))"
proof -
  from assms(2) have "length ra_pos_list = length (point_source_list ps)"
    unfolding image_position_def by (auto dest: image_position_loop_length)
  with assms(1) have
    "0 + length (point_source_type_list ps) \<le> length (flux_from_point_source_list ps)"
    "0 + length (point_source_type_list ps) \<le> length (fixed_magnification_list ps)"
    "0 + length (point_source_type_list ps) \<le> length ra_pos_list"
    by (simp_all add: consistent_def)
  from num_basis_loop_sum [OF this, of 0] assms(2) show ?thesis
    by (simp add: num_basis_def)
qed

theorem num_basis_sum_witness:
  "num_basis example_ps example_mip [Map.empty, Map.empty] () = Inr 3"
proof -
  have c: "consistent example_ps"
    by (simp add: consistent_def example_ps_def)
  have ip: "image_position example_ps example_mip [Map.empty, Map.empty] () None False False
              = Inr ([[1, 2], [5, 6, 7, 8]], [[3, 4], [5, 6, 7, 8]])"
    by (simp add: image_position_def example_ps_def example_mip_def nth_py_def)
  from num_basis_sum [OF c ip] show ?thesis
    by (simp add: block_length_def example_ps_def upt_rec)
qed

lemma list_heap_setitem [simp]: "list_heap (setitem h r key v) = list_heap h"
  by (simp add: setitem_def)

lemma length_dict_heap_setitem [simp]:
  "length (dict_heap (setitem h r key v)) = length (dict_heap h)"
  by (simp add: setitem_def)

lemma setitem_other:
  assumes "r' \<noteq> r \<or> s \<noteq> key"
  shows "(dict_heap (setitem h r key v) ! r') s = (dict_heap h ! r') s"
proof (cases "r < length (dict_heap h)")
  case True
  with assms show ?thesis by (auto simp: setitem_def nth_list_update)
next
  case False
  then have "(dict_heap h)[r := (dict_heap h ! r)(key \<mapsto> v)] = dict_heap h"
    by (simp add: list_update_beyond)
  then show ?thesis by (simp add: setitem_def)
qed

lemma setitem_other_dict:
  "r' \<noteq> r \<Longrightarrow> dict_heap (setitem h r key v) ! r' = dict_heap h ! r'"
  by (simp add: setitem_def)

lemma setitem_same:
  "r < length (dict_heap h) \<Longrightarrow> dict_heap (setitem h r key v) ! r = (dict_heap h ! r)(key \<mapsto> v)"
  by (simp add: setitem_def)

lemma nth_py_Inr_iff: "nth_py xs i = Inr x \<longleftrightarrow> i < length xs \<and> x = xs ! i"
  by (auto simp: nth_py_def)

lemma bind_err_eq_Inr: "bind_err m f = Inr y \<longleftrightarrow> (\<exists>a. m = Inr a \<and> f a = Inr y)"
  by (cases m) auto

lemma upt_head: "[k ..< k + Suc n] = k # [Suc k ..< Suc k + n]"
  using upt_conv_Cons [of k "Suc k + n"] by simp

lemma update_linear_loop_frame:
  assumes "update_linear_loop ps param ra refs h i k ms = Inr (h', j)"
  shows "list_heap h' = list_heap h \<and> length (dict_heap h') = length (dict_heap h)
       \<and> j = i + sum_list (map (block_length ps ra) [k ..< k + length ms])
       \<and> (\<forall>r s. (\<forall>k'. k \<le> k' \<and> k' < k + length ms \<and> k' < length refs
                      \<and> flux_from_point_source_list ps ! k' \<and> refs ! k' = r
                    \<longrightarrow> s \<noteq> written_key ps k')
               \<longrightarrow> (dict_heap h' ! r) s = (dict_heap h ! r) s)"
  using assms
proof (induction ms arbitrary: h i k)
  case Nil
  then show ?case by simp
next
  case (Cons m ms)
  from Cons.prems obtain flux where flux: "k < length (flux_from_point_source_list ps)"
      "flux = flux_from_point_source_list ps ! k"
    by (auto simp: bind_err_eq_Inr nth_py_Inr_iff)
  show ?case
  proof (cases flux)
    case False
    with Cons.prems flux have rest: "update_linear_loop ps param ra refs h i (Suc k) ms = Inr (h', j)"
      by (simp add: nth_py_def)
    have b: "block_length ps ra k = 0" using False flux by (simp add: block_length_def)
    from Cons.IH [OF rest] show ?thesis
      unfolding length_Cons upt_head using b by auto
  next
    case True
    with Cons.prems flux have kr: "k < length refs" and kf: "k < length (fixed_magnification_list ps)"
      by (auto simp: bind_err_eq_Inr nth_py_Inr_iff)
    show ?thesis
    proof (cases "fixed_magnification_list ps ! k")
      case fixed: True
      let ?h1 = "setitem h (refs ! k) ''source_amp'' (Num (param ! i))"
      from Cons.prems flux True kr kf fixed
      have rest: "update_linear_loop ps param ra refs ?h1 (i + 1) (Suc k) ms = Inr (h', j)"
        by (auto simp: bind_err_eq_Inr nth_py_Inr_iff)
      have b: "block_length ps ra k = 1" using True flux fixed by (simp add: block_length_def)
      have wk: "written_key ps k = ''source_amp''" using fixed by (simp add: written_key_def)
      note IH = Cons.IH [OF rest]
      have fr: "(dict_heap h' ! r) s = (dict_heap h ! r) s"
        if "\<forall>k'. k \<le> k' \<and> k' < k + length (m # ms) \<and> k' < length refs
                      \<and> flux_from_point_source_list ps ! k' \<and> refs ! k' = r
                    \<longrightarrow> s \<noteq> written_key ps k'" for r s
      proof -
        from that have "\<forall>k'. Suc k \<le> k' \<and> k' < Suc k + length ms \<and> k' < length refs
                      \<and> flux_from_point_source_list ps ! k' \<and> refs ! k' = r
                    \<longrightarrow> s \<noteq> written_key ps k'" by auto
        with IH have "(dict_heap h' ! r) s = (dict_heap ?h1 ! r) s" by blast
        moreover from that [rule_format, of k] kr True flux wk
        have "r \<noteq> refs ! k \<or> s \<noteq> ''source_amp''" by auto
        ultimately show ?thesis by (simp add: setitem_other)
      qed
      from IH fr show ?thesis
        unfolding length_Cons upt_head using b by simp
    next
      case nonfixed: False
      let ?n = "length (ra ! k)"
      let ?h1 = "setitem h (refs ! k) ''point_amp'' (Arr (take ?n (drop i param)))"
      from Cons.prems flux True kr kf nonfixed
      have rest: "update_linear_loop ps param ra refs ?h1 (i + ?n) (Suc k) ms = Inr (h', j)"
        by (auto simp: bind_err_eq_Inr nth_py_Inr_iff Let_def)
      have b: "block_length ps ra k = ?n" using True flux nonfixed by (simp add: block_length_def)
      have wk: "written_key ps k = ''point_amp''" using nonfixed by (simp add: written_key_def)
      note IH = Cons.IH [OF rest]
      have fr: "(dict_heap h' ! r) s = (dict_heap h ! r) s"
        if "\<forall>k'. k \<le> k' \<and> k' < k + length (m # ms) \<and> k' < length refs
                      \<and> flux_from_point_source_list ps ! k' \<and> refs ! k' = r
                    \<longrightarrow> s \<noteq> written_key ps k'" for r s
      proof -
        from that have "\<forall>k'. Suc k \<le> k' \<and> k' < Suc k + length ms \<and> k' < length refs
                      \<and> flux_from_point_source_list ps ! k' \<and> refs ! k' = r
                    \<longrightarrow> s \<noteq> written_key ps k'" by auto
        with IH have "(dict_heap h' ! r) s = (dict_heap ?h1 ! r) s" by blast
        moreover from that [rule_format, of k] kr True flux wk
        have "r \<noteq> refs ! k \<or> s \<noteq> ''point_amp''" by auto
        ultimately show ?thesis by (simp add: setitem_other)
      qed
      from IH fr show ?thesis
        unfolding length_Cons upt_head using b by simp
    qed
  qed
qed

lemma getitem_Some: "kw key = Some v \<Longrightarrow> getitem kw key = Inr v"
  by (simp add: getitem_def)

lemma slice_cons:
  assumes "i < length param" "Suc i \<le> j"
  shows "Num (param ! i) # map Num (take (j - Suc i) (drop (Suc i) param))
           = map Num (take (j - i) (drop i param))"
proof -
  from assms(2) have "j - i = Suc (j - Suc i)" by simp
  moreover from assms(1) have "drop i param = param ! i # drop (Suc i) param"
    by (simp add: Cons_nth_drop_Suc)
  ultimately show ?thesis by simp
qed

lemma slice_append:
  assumes "i + n \<le> j"
  shows "map Num (take n (drop i param)) @ map Num (take (j - (i + n)) (drop (i + n) param))
           = map Num (take (j - i) (drop i param))"
proof -
  from assms have "j - i = n + (j - (i + n))" by simp
  then have "take (j - i) (drop i param)
      = take n (drop i param) @ take (j - (i + n)) (drop n (drop i param))"
    by (simp only: take_add)
  then show ?thesis by (simp add: add.commute)
qed

lemma update_linear_loop_roundtrip:
  assumes "update_linear_loop ps param ra refs h i k ms = Inr (h', j)"
    and "distinct refs" and "\<forall>r\<in>set refs. r < length (dict_heap h)"
  shows "linear_param_loop ps (map (\<lambda>r. dict_heap h' ! r) refs) p k ms
           = Inr (p @ map Num (take (j - i) (drop i param)))"
  using assms(1,3)
proof (induction ms arbitrary: h i k p)
  case Nil
  then show ?case by simp
next
  case (Cons m ms)
  from Cons.prems obtain flux where flux: "k < length (flux_from_point_source_list ps)"
      "flux = flux_from_point_source_list ps ! k"
    by (auto simp: bind_err_eq_Inr nth_py_Inr_iff)
  show ?case
  proof (cases flux)
    case False
    with Cons.prems flux have rest: "update_linear_loop ps param ra refs h i (Suc k) ms = Inr (h', j)"
      by (simp add: nth_py_def)
    from Cons.IH [OF rest Cons.prems(2)] False flux show ?thesis
      by (simp add: nth_py_def)
  next
    case True
    with Cons.prems flux have kr: "k < length refs" and kf: "k < length (fixed_magnification_list ps)"
      by (auto simp: bind_err_eq_Inr nth_py_Inr_iff)
    from kr Cons.prems(2) have valid: "refs ! k < length (dict_heap h)" by simp
    have other: "refs ! k' \<noteq> refs ! k" if "Suc k \<le> k'" "k' < length refs" for k'
      using that kr assms(2) by (auto simp: nth_eq_iff_index_eq)
    show ?thesis
    proof (cases "fixed_magnification_list ps ! k")
      case fixed: True
      let ?h1 = "setitem h (refs ! k) ''source_amp'' (Num (param ! i))"
      from Cons.prems flux True kr kf fixed
      have ip: "i < length param"
        and rest: "update_linear_loop ps param ra refs ?h1 (i + 1) (Suc k) ms = Inr (h', j)"
        by (auto simp: bind_err_eq_Inr nth_py_Inr_iff)
      have v1: "\<forall>r\<in>set refs. r < length (dict_heap ?h1)" using Cons.prems(2) by simp
      note F = update_linear_loop_frame [OF rest]
      from F have j: "Suc i \<le> j" by simp
      from F other have "(dict_heap h' ! (refs ! k)) ''source_amp''
          = (dict_heap ?h1 ! (refs ! k)) ''source_amp''" by blast
      then have rd: "(dict_heap h' ! (refs ! k)) ''source_amp'' = Some (Num (param ! i))"
        using valid by (simp add: setitem_same)
      from Cons.IH [OF rest v1, of "p @ [Num (param ! i)]"]
      have "linear_param_loop ps (map (\<lambda>r. dict_heap h' ! r) refs) (p @ [Num (param ! i)]) (Suc k) ms
           = Inr (p @ Num (param ! i) # map Num (take (j - Suc i) (drop (Suc i) param)))"
        by simp
      then show ?thesis
        using flux True kr kf fixed
        by (simp add: nth_py_def getitem_def rd slice_cons [OF ip j])
    next
      case nonfixed: False
      let ?n = "length (ra ! k)"
      let ?a = "take ?n (drop i param)"
      let ?h1 = "setitem h (refs ! k) ''point_amp'' (Arr ?a)"
      from Cons.prems flux True kr kf nonfixed
      have rest: "update_linear_loop ps param ra refs ?h1 (i + ?n) (Suc k) ms = Inr (h', j)"
        by (auto simp: bind_err_eq_Inr nth_py_Inr_iff Let_def)
      have v1: "\<forall>r\<in>set refs. r < length (dict_heap ?h1)" using Cons.prems(2) by simp
      note F = update_linear_loop_frame [OF rest]
      from F have j: "i + ?n \<le> j" by simp
      from F other have "(dict_heap h' ! (refs ! k)) ''point_amp''
          = (dict_heap ?h1 ! (refs ! k)) ''point_amp''" by blast
      then have rd: "(dict_heap h' ! (refs ! k)) ''point_amp'' = Some (Arr ?a)"
        using valid by (simp add: setitem_same)
      from Cons.IH [OF rest v1, of "p @ map Num ?a"]
      have "linear_param_loop ps (map (\<lambda>r. dict_heap h' ! r) refs) (p @ map Num ?a) (Suc k) ms
           = Inr (p @ map Num ?a @ map Num (take (j - (i + ?n)) (drop (i + ?n) param)))"
        by simp
      then show ?thesis
        using flux True kr kf nonfixed
        by (simp add: nth_py_def getitem_def rd as_array_def slice_append [OF j])
    qed
  qed
qed

lemma take_drop_as_map:
  assumes "j \<le> length param"
  shows "take (j - i) (drop i param) = map (\<lambda>t. param ! (i + t)) [0 ..< j - i]"
  using assms by (intro nth_equalityI) auto

lemma update_linear_unfold:
  assumes "update_linear ps mip param i h kwargs_ps kwargs_lens = Inr (h', kwargs_ps', j)"
  obtains ra dec where
    "image_position ps mip (kwargs_list_at h kwargs_ps) kwargs_lens None False False = Inr (ra, dec)"
    "update_linear_loop ps param ra (list_heap h ! kwargs_ps) h i 0 (point_source_list ps) = Inr (h', j)"
    "kwargs_ps' = kwargs_ps"
  using assms unfolding update_linear_def
  by (auto simp: bind_err_eq_Inr)

lemma example_update_linear:
  "update_linear example_ps example_mip [10, 20, 30, 40] 1 example_store 0 ()
     = Inr (setitem (setitem example_store 0 ''point_amp'' (Arr [20, 30])) 1 ''source_amp'' (Num 40),
            0, 4)"
  by (simp add: update_linear_def image_position_def example_ps_def example_mip_def
      example_store_def kwargs_list_at_def nth_py_def Let_def)

lemma example_store_valid: "valid_kwargs_ps example_store 0 \<and> unshared_kwargs_ps example_store 0"
  by (simp add: valid_kwargs_ps_def unshared_kwargs_ps_def example_store_def)

lemma example_image_position:
  "image_position example_ps example_mip (kwargs_list_at example_store 0) () None False False
     = Inr ([[1, 2], [5, 6, 7, 8]], [[3, 4], [5, 6, 7, 8]])"
  by (simp add: image_position_def example_ps_def example_mip_def example_store_def
      kwargs_list_at_def nth_py_def)

text \<open>
  Claim C1. Let \<open>update_linear(param, i, kwargs_ps, kwargs_lens)\<close> return
  \<open>(kwargs_ps', j)\<close> for a keyword-argument list with one dictionary object per source,
  and let \<open>param\<close> have at least \<open>j\<close> entries. Then \<open>linear_param_from_kwargs(kwargs_ps')\<close>
  returns the entries \<open>param[i], ..., param[j-1]\<close>, one for one, and \<open>j - i\<close> is the sum
  over the sources of 0 for a source without flux, 1 for a flux-enabled source with
  fixed magnification, and the number of images \<open>image_position\<close> returned for any other
  flux-enabled source. (\<open>linear_param_from_kwargs\<close> does not call \<open>image_position\<close>.)
\<close>

theorem update_linear_roundtrip:
  assumes "update_linear ps mip param i h kwargs_ps kwargs_lens = Inr (h', kwargs_ps', j)"
    and "valid_kwargs_ps h kwargs_ps" and "unshared_kwargs_ps h kwargs_ps"
    and "j \<le> length param"
    and "image_position ps mip (kwargs_list_at h kwargs_ps) kwargs_lens None False False
           = Inr (ra_pos_list, dec_pos_list)"
  shows "linear_param_from_kwargs ps (kwargs_list_at h' kwargs_ps')
           = Inr (map (\<lambda>t. Num (param ! (i + t))) [0 ..< j - i])
       \<and> j - i = sum_list (map (block_length ps ra_pos_list) [0 ..< length (point_source_list ps)])"
proof -
  from assms(1) obtain ra dec where
    ip: "image_position ps mip (kwargs_list_at h kwargs_ps) kwargs_lens None False False = Inr (ra, dec)"
    and loop: "update_linear_loop ps param ra (list_heap h ! kwargs_ps) h i 0 (point_source_list ps) = Inr (h', j)"
    and same: "kwargs_ps' = kwargs_ps"
    by (rule update_linear_unfold)
  from ip assms(5) have ra: "ra = ra_pos_list" by simp
  note F = update_linear_loop_frame [OF loop]
  have d: "distinct (list_heap h ! kwargs_ps)" using assms(3) by (simp add: unshared_kwargs_ps_def)
  have v: "\<forall>r\<in>set (list_heap h ! kwargs_ps). r < length (dict_heap h)"
    using assms(2) by (simp add: valid_kwargs_ps_def list_all_iff)
  from update_linear_loop_roundtrip [OF loop d v, of "[]"] F
  have "linear_param_from_kwargs ps (kwargs_list_at h' kwargs_ps)
           = Inr (map Num (take (j - i) (drop i param)))"
    by (simp add: linear_param_from_kwargs_def kwargs_list_at_def kwargs_at_def [abs_def])
  moreover have "map Num (take (j - i) (drop i param)) = map (\<lambda>t. Num (param ! (i + t))) [0 ..< j - i]"
    by (simp add: take_drop_as_map [OF assms(4)] comp_def)
  ultimately have g1: "linear_param_from_kwargs ps (kwargs_list_at h' kwargs_ps)
           = Inr (map (\<lambda>t. Num (param ! (i + t))) [0 ..< j - i])"
    by simp
  from F ra have g2: "j - i = sum_list (map (block_length ps ra_pos_list) [0 ..< length (point_source_list ps)])"
    by simp
  from g1 g2 same show ?thesis by blast
qed

theorem update_linear_roundtrip_witness:
  "linear_param_from_kwargs example_ps
       (kwargs_list_at
          (setitem (setitem example_store 0 ''point_amp'' (Arr [20, 30])) 1 ''source_amp'' (Num 40)) 0)
     = Inr [Num 20, Num 30, Num 40]"
proof -
  have l: "4 \<le> length [10, 20, 30, 40 :: real]" by simp
  from update_linear_roundtrip [OF example_update_linear example_store_valid [THEN conjunct1]
      example_store_valid [THEN conjunct2] l example_image_position]
  show ?thesis by (simp add: upt_rec)
qed

text \<open>
  Claim C10. \<open>update_linear\<close> works in place: the list it returns is the list object
  it was given, no object is created, and the list object itself is unchanged. A key
  of a dictionary object changes only if the object is the entry of a flux-enabled
  source and the key is that source's \<open>source_amp\<close> (fixed magnification) or
  \<open>point_amp\<close> (otherwise). For a list with one dictionary object per source, every
  other key of a flux-enabled entry and every other entry is as before, and the
  caller's list holds the new amplitudes \<open>param[i : j]\<close>.
\<close>

theorem update_linear_in_place:
  assumes "update_linear ps mip param i h kwargs_ps kwargs_lens = Inr (h', kwargs_ps', j)"
    and "valid_kwargs_ps h kwargs_ps" and "unshared_kwargs_ps h kwargs_ps"
    and "refs = list_heap h ! kwargs_ps"
  shows "kwargs_ps' = kwargs_ps
       \<and> list_heap h' = list_heap h
       \<and> length (dict_heap h') = length (dict_heap h)
       \<and> (\<forall>r s. (\<forall>k. k < length (point_source_list ps) \<and> k < length refs
                      \<and> flux_from_point_source_list ps ! k \<and> refs ! k = r
                    \<longrightarrow> s \<noteq> written_key ps k)
               \<longrightarrow> kwargs_at h' r s = kwargs_at h r s)
       \<and> (\<forall>k < length refs.
             if k < length (point_source_list ps) \<and> flux_from_point_source_list ps ! k
             then \<forall>s. s \<noteq> written_key ps k \<longrightarrow> kwargs_at h' (refs ! k) s = kwargs_at h (refs ! k) s
             else kwargs_at h' (refs ! k) = kwargs_at h (refs ! k))
       \<and> linear_param_from_kwargs ps (kwargs_list_at h' kwargs_ps)
           = Inr (map Num (take (j - i) (drop i param)))"
proof -
  from assms(1) obtain ra dec where
    loop: "update_linear_loop ps param ra refs h i 0 (point_source_list ps) = Inr (h', j)"
    and same: "kwargs_ps' = kwargs_ps"
    unfolding assms(4) by (rule update_linear_unfold)
  note F = update_linear_loop_frame [OF loop]
  have d: "distinct refs" using assms(3,4) by (simp add: unshared_kwargs_ps_def)
  have v: "\<forall>r\<in>set refs. r < length (dict_heap h)"
    using assms(2,4) by (simp add: valid_kwargs_ps_def list_all_iff)
  have frame: "kwargs_at h' r s = kwargs_at h r s"
    if "\<forall>k. k < length (point_source_list ps) \<and> k < length refs
                      \<and> flux_from_point_source_list ps ! k \<and> refs ! k = r
                    \<longrightarrow> s \<noteq> written_key ps k" for r s
    using F that by (simp add: kwargs_at_def)
  have entries: "if k < length (point_source_list ps) \<and> flux_from_point_source_list ps ! k
             then \<forall>s. s \<noteq> written_key ps k \<longrightarrow> kwargs_at h' (refs ! k) s = kwargs_at h (refs ! k) s
             else kwargs_at h' (refs ! k) = kwargs_at h (refs ! k)" if k: "k < length refs" for k
  proof -
    have eq: "k' = k" if "k' < length refs" "refs ! k' = refs ! k" for k'
      using that k d by (simp add: nth_eq_iff_index_eq)
    show ?thesis
    proof (cases "k < length (point_source_list ps) \<and> flux_from_point_source_list ps ! k")
      case True
      have "kwargs_at h' (refs ! k) s = kwargs_at h (refs ! k) s" if "s \<noteq> written_key ps k" for s
        by (rule frame) (use that eq in auto)
      with True show ?thesis by simp
    next
      case False
      have "kwargs_at h' (refs ! k) s = kwargs_at h (refs ! k) s" for s
        by (rule frame) (use False eq in auto)
      then have "kwargs_at h' (refs ! k) = kwargs_at h (refs ! k)" by (rule ext)
      with False show ?thesis by simp
    qed
  qed
  from update_linear_loop_roundtrip [OF loop d v, of "[]"] F
  have rt: "linear_param_from_kwargs ps (kwargs_list_at h' kwargs_ps)
           = Inr (map Num (take (j - i) (drop i param)))"
    by (simp add: linear_param_from_kwargs_def kwargs_list_at_def kwargs_at_def [abs_def] assms(4))
  from same F frame entries rt show ?thesis by blast
qed



theorem update_linear_in_place_witness:
  "list_heap (setitem (setitem example_store 0 ''point_amp'' (Arr [20, 30])) 1 ''source_amp'' (Num 40))
       = list_heap example_store
     \<and> kwargs_at (setitem (setitem example_store 0 ''point_amp'' (Arr [20, 30])) 1 ''source_amp'' (Num 40))
         0 ''ra_image'' = Some (Arr [1, 2])
     \<and> linear_param_from_kwargs example_ps
         (kwargs_list_at
            (setitem (setitem example_store 0 ''point_amp'' (Arr [20, 30])) 1 ''source_amp'' (Num 40)) 0)
       = Inr [Num 20, Num 30, Num 40]"
proof -
  let ?H = "setitem (setitem example_store 0 ''point_amp'' (Arr [20, 30])) 1 ''source_amp'' (Num 40)"
  note T = update_linear_in_place [OF example_update_linear example_store_valid [THEN conjunct1]
      example_store_valid [THEN conjunct2] refl]
  from T have a: "list_heap ?H = list_heap example_store" by blast
  from T have e: "\<forall>k < length (list_heap example_store ! 0).
             if k < length (point_source_list example_ps) \<and> flux_from_point_source_list example_ps ! k
             then \<forall>s. s \<noteq> written_key example_ps k \<longrightarrow>
                    kwargs_at ?H (list_heap example_store ! 0 ! k) s
                      = kwargs_at example_store (list_heap example_store ! 0 ! k) s
             else kwargs_at ?H (list_heap example_store ! 0 ! k)
                      = kwargs_at example_store (list_heap example_store ! 0 ! k)"
    by blast
  from e [rule_format, of 0] have b: "kwargs_at ?H 0 ''ra_image'' = Some (Arr [1, 2])"
    by (simp add: example_store_def example_ps_def written_key_def kwargs_at_def)
  from T have c: "linear_param_from_kwargs example_ps (kwargs_list_at ?H 0)
       = Inr (map Num (take (4 - 1) (drop 1 [10, 20, 30, 40])))" by blast
  from a b c show ?thesis by simp
qed

section \<open>Verification of \<open>set_amplitudes\<close>\<close>

lemma deepcopy_entries_unshared:
  assumes "distinct rs" and "set rs \<inter> fst ` set memo = {}"
    and "\<forall>r\<in>set rs. r < length (dict_heap h)"
  shows "deepcopy_entries h memo rs =
     (h\<lparr>dict_heap := dict_heap h @ map (\<lambda>r. dict_heap h ! r) rs\<rparr>,
      [length (dict_heap h) ..< length (dict_heap h) + length rs])"
  using assms
proof (induction rs arbitrary: h memo)
  case Nil
  then show ?case by simp
next
  case (Cons r rs)
  let ?L = "length (dict_heap h)"
  let ?h1 = "h\<lparr>dict_heap := dict_heap h @ [dict_heap h ! r]\<rparr>"
  from Cons.prems(2) have none: "map_of memo r = None"
    by (auto simp: map_of_eq_None_iff)
  have d: "distinct rs" using Cons.prems(1) by simp
  have m: "set rs \<inter> fst ` set ((r, ?L) # memo) = {}" using Cons.prems(1,2) by auto
  have v: "\<forall>r'\<in>set rs. r' < length (dict_heap ?h1)" using Cons.prems(3) by auto
  have same: "map (\<lambda>r'. (dict_heap h @ [dict_heap h ! r]) ! r') rs = map (\<lambda>r'. dict_heap h ! r') rs"
    using Cons.prems(3) by (auto simp: nth_append)
  have u: "[?L ..< ?L + length (r # rs)] = ?L # [Suc ?L ..< Suc ?L + length rs]"
    using upt_conv_Cons [of ?L "Suc ?L + length rs"] by simp
  from Cons.IH [OF d m v] show ?case
    unfolding u by (simp add: none Let_def same)
qed

lemma set_amplitudes_loop_frame:
  assumes "set_amplitudes_loop ps amp_list refs h i ts = Inr h'"
  shows "list_heap h' = list_heap h \<and> length (dict_heap h') = length (dict_heap h)
       \<and> (\<forall>r. (\<forall>k. i \<le> k \<and> k < i + length ts \<and> k < length refs \<longrightarrow> refs ! k \<noteq> r)
              \<longrightarrow> dict_heap h' ! r = dict_heap h ! r)"
  using assms
proof (induction ts arbitrary: h i)
  case Nil
  then show ?case by simp
next
  case (Cons t ts)
  from Cons.prems obtain h1 where rest: "set_amplitudes_loop ps amp_list refs h1 (Suc i) ts = Inr h'"
    and h1: "h1 = h \<or> (i < length refs \<and> (\<exists>key v. h1 = setitem h (refs ! i) key v))"
    by (auto simp: bind_err_eq_Inr nth_py_Inr_iff split: if_splits)
  from h1 have l: "list_heap h1 = list_heap h" "length (dict_heap h1) = length (dict_heap h)"
    by auto
  have fr: "dict_heap h' ! r = dict_heap h ! r"
    if "\<forall>k. i \<le> k \<and> k < i + length (t # ts) \<and> k < length refs \<longrightarrow> refs ! k \<noteq> r" for r
  proof -
    from that have "\<forall>k. Suc i \<le> k \<and> k < Suc i + length ts \<and> k < length refs \<longrightarrow> refs ! k \<noteq> r"
      by auto
    with Cons.IH [OF rest] have "dict_heap h' ! r = dict_heap h1 ! r" by blast
    moreover from h1 that have "dict_heap h1 ! r = dict_heap h ! r"
      by (auto simp: setitem_other_dict)
    ultimately show ?thesis by simp
  qed
  from Cons.IH [OF rest] l fr show ?case by simp
qed

lemma set_amplitudes_loop_step:
  assumes "set_amplitudes_loop ps amp_list refs h i (t # ts) = Inr h'"
    and "\<forall>r\<in>set refs. r < length (dict_heap h)"
  obtains h1 where "set_amplitudes_loop ps amp_list refs h1 (Suc i) ts = Inr h'"
    and "list_heap h1 = list_heap h" and "length (dict_heap h1) = length (dict_heap h)"
    and "\<And>r. i < length refs \<longrightarrow> r \<noteq> refs ! i \<Longrightarrow> dict_heap h1 ! r = dict_heap h ! r"
    and "i < length refs \<Longrightarrow>
           dict_heap h1 ! (refs ! i) = assign_amplitude ps amp_list t i (dict_heap h ! (refs ! i))"
proof -
  from assms(1) obtain flux where flux: "i < length (flux_from_point_source_list ps)"
      "flux = flux_from_point_source_list ps ! i"
    by (auto simp: bind_err_eq_Inr nth_py_Inr_iff)
  have v: "refs ! i < length (dict_heap h)" if "i < length refs" using that assms(2) by simp
  consider (none) "\<not> flux \<or> (t \<noteq> ''UNLENSED'' \<and> t \<notin> set [''LENSED_POSITION'', ''SOURCE_POSITION''])"
    | (point) "flux" "t = ''UNLENSED'' \<or>
         (t \<in> set [''LENSED_POSITION'', ''SOURCE_POSITION''] \<and> \<not> fixed_magnification_list ps ! i)"
    | (source) "flux" "t \<noteq> ''UNLENSED''" "t \<in> set [''LENSED_POSITION'', ''SOURCE_POSITION'']"
         "fixed_magnification_list ps ! i"
    by blast
  then show thesis
  proof cases
    case none
    with assms(1) flux have "set_amplitudes_loop ps amp_list refs h (Suc i) ts = Inr h'"
      by (auto simp: bind_err_eq_Inr nth_py_Inr_iff)
    moreover from none flux
    have "assign_amplitude ps amp_list t i d = d" for d
      by (auto simp: assign_amplitude_def)
    ultimately show ?thesis by (intro that [of h]) auto
  next
    case point
    let ?h1 = "setitem h (refs ! i) ''point_amp'' (amp_list ! i)"
    from point assms(1) flux have ir: "i < length refs"
      and rest: "set_amplitudes_loop ps amp_list refs ?h1 (Suc i) ts = Inr h'"
      by (auto simp: bind_err_eq_Inr nth_py_Inr_iff split: if_splits)
    from point flux have "assign_amplitude ps amp_list t i d = d(''point_amp'' \<mapsto> amp_list ! i)" for d
      by (auto simp: assign_amplitude_def)
    with rest v [OF ir] show ?thesis
      by (intro that [of ?h1]) (auto simp: setitem_same setitem_other_dict ir)
  next
    case source
    let ?h1 = "setitem h (refs ! i) ''source_amp'' (amp_list ! i)"
    from source assms(1) flux have ir: "i < length refs"
      and rest: "set_amplitudes_loop ps amp_list refs ?h1 (Suc i) ts = Inr h'"
      by (auto simp: bind_err_eq_Inr nth_py_Inr_iff split: if_splits)
    from source flux have "assign_amplitude ps amp_list t i d = d(''source_amp'' \<mapsto> amp_list ! i)" for d
      by (auto simp: assign_amplitude_def)
    with rest v [OF ir] show ?thesis
      by (intro that [of ?h1]) (auto simp: setitem_same setitem_other_dict ir)
  qed
qed

lemma set_amplitudes_loop_entries:
  assumes "set_amplitudes_loop ps amp_list refs h i ts = Inr h'"
    and "distinct refs" and "\<forall>r\<in>set refs. r < length (dict_heap h)"
    and "i \<le> k" "k < i + length ts" "k < length refs"
  shows "dict_heap h' ! (refs ! k)
           = assign_amplitude ps amp_list (ts ! (k - i)) k (dict_heap h ! (refs ! k))"
  using assms(1,3,4,5)
proof (induction ts arbitrary: h i)
  case Nil
  then show ?case by simp
next
  case (Cons t ts)
  from Cons.prems(1,2) obtain h1 where
    rest: "set_amplitudes_loop ps amp_list refs h1 (Suc i) ts = Inr h'"
    and len: "length (dict_heap h1) = length (dict_heap h)"
    and other: "\<And>r. i < length refs \<longrightarrow> r \<noteq> refs ! i \<Longrightarrow> dict_heap h1 ! r = dict_heap h ! r"
    and here: "i < length refs \<Longrightarrow>
           dict_heap h1 ! (refs ! i) = assign_amplitude ps amp_list t i (dict_heap h ! (refs ! i))"
    by (rule set_amplitudes_loop_step) blast
  have v1: "\<forall>r\<in>set refs. r < length (dict_heap h1)" using Cons.prems(2) len by simp
  show ?case
  proof (cases "k = i")
    case True
    have "\<forall>k'. Suc i \<le> k' \<and> k' < Suc i + length ts \<and> k' < length refs \<longrightarrow> refs ! k' \<noteq> refs ! i"
      using assms(2,6) True by (auto simp: nth_eq_iff_index_eq)
    with set_amplitudes_loop_frame [OF rest]
    have "dict_heap h' ! (refs ! i) = dict_heap h1 ! (refs ! i)" by blast
    with here assms(6) True show ?thesis by simp
  next
    case False
    with Cons.prems(3,4) have k: "Suc i \<le> k" "k < Suc i + length ts" by auto
    from False assms(2,6) have "i < length refs \<longrightarrow> refs ! k \<noteq> refs ! i"
      by (auto simp: nth_eq_iff_index_eq)
    then have "dict_heap h1 ! (refs ! k) = dict_heap h ! (refs ! k)" by (rule other)
    moreover from k have "k - i = Suc (k - Suc i)" by simp
    then have "(t # ts) ! (k - i) = ts ! (k - Suc i)" by simp
    ultimately show ?thesis
      using Cons.IH [OF rest v1 k] by simp
  qed
qed

lemma deepcopy_unshared:
  assumes "valid_kwargs_ps h kwargs_ps" and "unshared_kwargs_ps h kwargs_ps"
  shows "deepcopy h kwargs_ps =
     (h\<lparr>dict_heap := dict_heap h @ map (\<lambda>r. dict_heap h ! r) (list_heap h ! kwargs_ps),
        list_heap := list_heap h @
          [[length (dict_heap h) ..< length (dict_heap h) + length (list_heap h ! kwargs_ps)]]\<rparr>,
      length (list_heap h))"
proof -
  have d: "distinct (list_heap h ! kwargs_ps)" using assms(2) by (simp add: unshared_kwargs_ps_def)
  have v: "\<forall>r\<in>set (list_heap h ! kwargs_ps). r < length (dict_heap h)"
    using assms(1) by (simp add: valid_kwargs_ps_def list_all_iff)
  have m: "set (list_heap h ! kwargs_ps) \<inter> fst ` set [] = {}" by simp
  show ?thesis
    unfolding deepcopy_def deepcopy_entries_unshared [OF d m v] by simp
qed

text \<open>
  Claim C9. For a keyword-argument list with one dictionary object per source and an
  instance whose types are supported, \<open>set_amplitudes\<close> returns a new list object
  whose entries are new dictionary objects, and every object of the store it was
  called in, so the input list and its dictionaries, is as before. In the returned
  list, the entry of a flux-enabled source \<open>i\<close> is the input entry with \<open>amp_list[i]\<close>
  stored under \<open>point_amp\<close> when the type is UNLENSED or the magnification is not
  fixed, and under \<open>source_amp\<close> when the type is LENSED_POSITION or SOURCE_POSITION
  with fixed magnification; every other entry equals the input entry.
\<close>

theorem set_amplitudes_copy:
  assumes "set_amplitudes ps amp_list h kwargs_ps = Inr (h', kwargs_list)"
    and "valid_kwargs_ps h kwargs_ps" and "unshared_kwargs_ps h kwargs_ps"
    and "set (point_source_type_list ps) \<subseteq> set SUPPORTED_MODELS"
    and "old = kwargs_list_at h kwargs_ps" and "new = kwargs_list_at h' kwargs_list"
  shows "take (length (dict_heap h)) (dict_heap h') = dict_heap h
       \<and> take (length (list_heap h)) (list_heap h') = list_heap h
       \<and> kwargs_list = length (list_heap h)
       \<and> list_all (\<lambda>r. length (dict_heap h) \<le> r) (list_heap h' ! kwargs_list)
       \<and> length new = length old
       \<and> (\<forall>i < length old.
             if i < length (point_source_type_list ps) \<and> flux_from_point_source_list ps ! i
             then (point_source_type_list ps ! i = ''UNLENSED'' \<or> \<not> fixed_magnification_list ps ! i
                     \<longrightarrow> new ! i = (old ! i)(''point_amp'' \<mapsto> amp_list ! i))
                \<and> (point_source_type_list ps ! i \<in> {''LENSED_POSITION'', ''SOURCE_POSITION''}
                       \<and> fixed_magnification_list ps ! i
                     \<longrightarrow> new ! i = (old ! i)(''source_amp'' \<mapsto> amp_list ! i))
             else new ! i = old ! i)"
proof -
  let ?refs = "list_heap h ! kwargs_ps"
  let ?L = "length (dict_heap h)"
  let ?n = "length ?refs"
  let ?refs1 = "[?L ..< ?L + ?n]"
  let ?h1 = "h\<lparr>dict_heap := dict_heap h @ map (\<lambda>r. dict_heap h ! r) ?refs,
        list_heap := list_heap h @ [?refs1]\<rparr>"
  let ?types = "point_source_type_list ps"
  from assms(1) have K: "kwargs_list = length (list_heap h)"
    and loop: "set_amplitudes_loop ps amp_list ?refs1 ?h1 0 ?types = Inr h'"
    unfolding set_amplitudes_def deepcopy_unshared [OF assms(2,3)]
    by (auto simp: bind_err_eq_Inr)
  note F = set_amplitudes_loop_frame [OF loop]
  from F have lh: "list_heap h' = list_heap h @ [?refs1]"
    and ld: "length (dict_heap h') = ?L + ?n" by simp_all
  have old_same: "dict_heap h' ! r = dict_heap h ! r" if "r < ?L" for r
  proof -
    from that have "\<forall>k. 0 \<le> k \<and> k < 0 + length ?types \<and> k < length ?refs1 \<longrightarrow> ?refs1 ! k \<noteq> r"
      by auto
    with F have "dict_heap h' ! r = dict_heap ?h1 ! r" by blast
    with that show ?thesis by (simp add: nth_append)
  qed
  have g1: "take ?L (dict_heap h') = dict_heap h"
    using ld old_same by (intro nth_equalityI) auto
  have g2: "take (length (list_heap h)) (list_heap h') = list_heap h"
    using lh by simp
  have g4: "list_all (\<lambda>r. ?L \<le> r) (list_heap h' ! kwargs_list)"
    using lh K by (simp add: list_all_iff)
  have newi: "new ! i = dict_heap h' ! (?L + i)" if "i < ?n" for i
    using that lh K assms(6) by (simp add: kwargs_list_at_def kwargs_at_def)
  have oldi: "old ! i = dict_heap h ! (?refs ! i)" if "i < ?n" for i
    using that assms(5) by (simp add: kwargs_list_at_def kwargs_at_def)
  have g5: "length new = length old"
    using lh K assms(5,6) by (simp add: kwargs_list_at_def)
  have lo: "length old = ?n" using assms(5) by (simp add: kwargs_list_at_def)
  have copy: "dict_heap ?h1 ! (?L + i) = dict_heap h ! (?refs ! i)" if "i < ?n" for i
    using that by (simp add: nth_append)
  have d1: "distinct ?refs1" by simp
  have v1: "\<forall>r\<in>set ?refs1. r < length (dict_heap ?h1)" by simp
  have g6: "if i < length ?types \<and> flux_from_point_source_list ps ! i
             then (?types ! i = ''UNLENSED'' \<or> \<not> fixed_magnification_list ps ! i
                     \<longrightarrow> new ! i = (old ! i)(''point_amp'' \<mapsto> amp_list ! i))
                \<and> (?types ! i \<in> {''LENSED_POSITION'', ''SOURCE_POSITION''}
                       \<and> fixed_magnification_list ps ! i
                     \<longrightarrow> new ! i = (old ! i)(''source_amp'' \<mapsto> amp_list ! i))
             else new ! i = old ! i" if i: "i < ?n" for i
  proof (cases "i < length ?types")
    case True
    from i have i1: "i < length ?refs1" by simp
    from True have i2: "i < 0 + length ?types" by simp
    from set_amplitudes_loop_entries [OF loop d1 v1 le0 i2 i1] i
    have e: "new ! i = assign_amplitude ps amp_list (?types ! i) i (old ! i)"
      by (simp only: newi [OF i] oldi [OF i] copy [OF i] nth_upt diff_zero)
    from True assms(4) have "?types ! i \<in> set SUPPORTED_MODELS" by auto
    then show ?thesis
      unfolding e using True by (auto simp: assign_amplitude_def SUPPORTED_MODELS_def)
  next
    case False
    then have "\<forall>k. 0 \<le> k \<and> k < 0 + length ?types \<and> k < length ?refs1 \<longrightarrow> ?refs1 ! k \<noteq> ?L + i"
      by auto
    with F have "dict_heap h' ! (?L + i) = dict_heap ?h1 ! (?L + i)" by blast
    then have "new ! i = old ! i"
      by (simp only: newi [OF i] oldi [OF i] copy [OF i])
    with False show ?thesis by simp
  qed
  from g1 g2 K g4 g5 g6 lo show ?thesis by simp
qed

lemma example_set_amplitudes:
  "set_amplitudes example_ps [Arr [7, 8], Num 9] example_store 0
     = Inr (setitem
              (setitem
                 \<lparr>dict_heap = dict_heap example_store @ dict_heap example_store,
                  list_heap = [[0, 1], [2, 3]]\<rparr>
                 2 ''point_amp'' (Arr [7, 8]))
              3 ''source_amp'' (Num 9),
            1)"
  by (simp add: set_amplitudes_def deepcopy_def example_ps_def example_store_def nth_py_def Let_def
      numeral_2_eq_2 numeral_3_eq_3)

lemma example_ps_supported: "set (point_source_type_list example_ps) \<subseteq> set SUPPORTED_MODELS"
  by (simp add: example_ps_def SUPPORTED_MODELS_def)

theorem set_amplitudes_copy_witness:
  "take 2 (dict_heap
       (setitem
          (setitem
             \<lparr>dict_heap = dict_heap example_store @ dict_heap example_store,
              list_heap = [[0, 1], [2, 3]]\<rparr>
             2 ''point_amp'' (Arr [7, 8]))
          3 ''source_amp'' (Num 9))) = dict_heap example_store
   \<and> kwargs_list_at
       (setitem
          (setitem
             \<lparr>dict_heap = dict_heap example_store @ dict_heap example_store,
              list_heap = [[0, 1], [2, 3]]\<rparr>
             2 ''point_amp'' (Arr [7, 8]))
          3 ''source_amp'' (Num 9)) 1 ! 0
       = (kwargs_list_at example_store 0 ! 0)(''point_amp'' \<mapsto> Arr [7, 8])
   \<and> kwargs_list_at
       (setitem
          (setitem
             \<lparr>dict_heap = dict_heap example_store @ dict_heap example_store,
              list_heap = [[0, 1], [2, 3]]\<rparr>
             2 ''point_amp'' (Arr [7, 8]))
          3 ''source_amp'' (Num 9)) 1 ! 1
       = (kwargs_list_at example_store 0 ! 1)(''source_amp'' \<mapsto> Num 9)"
proof -
  let ?H = "setitem
          (setitem
             \<lparr>dict_heap = dict_heap example_store @ dict_heap example_store,
              list_heap = [[0, 1], [2, 3]]\<rparr>
             2 ''point_amp'' (Arr [7, 8]))
          3 ''source_amp'' (Num 9)"
  note T = set_amplitudes_copy [OF example_set_amplitudes example_store_valid [THEN conjunct1]
      example_store_valid [THEN conjunct2] example_ps_supported refl refl]
  from T have a: "take (length (dict_heap example_store)) (dict_heap ?H) = dict_heap example_store"
    by blast
  from T have e: "\<forall>i < length (kwargs_list_at example_store 0).
             if i < length (point_source_type_list example_ps) \<and> flux_from_point_source_list example_ps ! i
             then (point_source_type_list example_ps ! i = ''UNLENSED'' \<or> \<not> fixed_magnification_list example_ps ! i
                     \<longrightarrow> kwargs_list_at ?H 1 ! i = (kwargs_list_at example_store 0 ! i)(''point_amp'' \<mapsto> [Arr [7, 8], Num 9] ! i))
                \<and> (point_source_type_list example_ps ! i \<in> {''LENSED_POSITION'', ''SOURCE_POSITION''}
                       \<and> fixed_magnification_list example_ps ! i
                     \<longrightarrow> kwargs_list_at ?H 1 ! i = (kwargs_list_at example_store 0 ! i)(''source_amp'' \<mapsto> [Arr [7, 8], Num 9] ! i))
             else kwargs_list_at ?H 1 ! i = kwargs_list_at example_store 0 ! i"
    by blast
  have l: "length (kwargs_list_at example_store 0) = 2" "length (dict_heap example_store) = 2"
    by (simp_all add: kwargs_list_at_def example_store_def)
  from e [rule_format, of 0] l
  have b: "kwargs_list_at ?H 1 ! 0 = (kwargs_list_at example_store 0 ! 0)(''point_amp'' \<mapsto> Arr [7, 8])"
    by (simp add: example_ps_def)
  from e [rule_format, of 1] l
  have c: "kwargs_list_at ?H 1 ! 1 = (kwargs_list_at example_store 0 ! 1)(''source_amp'' \<mapsto> Num 9)"
    by (simp add: example_ps_def)
  from a b c l show ?thesis by simp
qed

end
